theory Spec2Isabelle
  imports Main "HOL-Library.Word"
begin

section \<open>The dictionary trace encoder of dd-trace (encode/0.5.js)\<close>

text \<open>
  The class \<open>AgentEncoder\<close> of \<open>encode/0.5.js\<close> extends the encoder of
  \<open>encode/0.4.js\<close>. It keeps two byte regions (the encoded traces and the encoded
  strings), two counters and an object whose own keys are the strings interned so far, each with its index.
  The methods of \<open>0.5.js\<close> are translated below as functions on an explicit state; the
  methods they inherit are not part of the sources at hand and are modelled from the
  specification, each marked as such.

  Bytes are \<open>8 word\<close>. A chunk (the growable buffer with a logical length) is the list
  of its first \<open>length\<close> bytes; a JavaScript string is a \<open>string\<close>, one \<open>char\<close> per
  byte of its encoding. An exception is a value \<open>Inl e\<close>.
\<close>

type_synonym byte = "8 word"

datatype error = ContractViolation | SchemaViolation

subsection \<open>Data\<close>

text \<open>
  A value held by a \<open>meta\<close> or \<open>metrics\<close> object: a string, a number (given by the 64
  bits of its double), or anything else.
\<close>

datatype jsvalue = StringValue string | NumberValue "64 word" | OtherValue

text \<open>
  A span, with the fields that \<open>_encode\<close> reads. A field that may be missing from the
  object is an \<open>option\<close>, \<open>None\<close> being \<open>undefined\<close>. Identifiers are 64-bit
  unsigned; \<open>meta\<close> and \<open>metrics\<close> are objects, given by their entries in the order
  of iteration.
\<close>

record span =
  service :: "string option"
  name :: "string option"
  resource :: "string option"
  trace_id :: "64 word"
  span_id :: "64 word"
  parent_id :: "64 word"
  start :: "int option"
  duration :: "int option"
  error :: "int option"
  meta :: "(string \<times> jsvalue) list option"
  metrics :: "(string \<times> jsvalue) list option"
  type :: "string option"

type_synonym trace = "span list"

text \<open>
  The fields of the encoder: \<open>_traceBytes\<close>, \<open>_stringBytes\<close>, \<open>_traceCount\<close>,
  \<open>_stringCount\<close> and \<open>_stringMap\<close>.

  Modelled from the spec: the object \<open>_stringMap\<close> and the counter \<open>_traceCount\<close>
  are created in \<open>0.4.js\<close>, which is missing. The dictionary is a "mapping from a
  unique string value to a monotonically increasing integer index": the field
  \<open>stringMap\<close> holds the own keys of the object, the interned strings, with their
  indices. Nothing says that the object is created without a prototype, so it is an
  ordinary object and has the inherited properties as well (see
  \<open>object_prototype_names\<close> below). The counter is the "trace count" that sizes the
  header of the trace table.
\<close>

record encoder =
  traceBytes :: "byte list"
  stringBytes :: "byte list"
  traceCount :: nat
  stringCount :: nat
  stringMap :: "string \<rightharpoonup> nat"

definition ARRAY_OF_TWO :: byte where
  "ARRAY_OF_TWO = 0x92"

definition ARRAY_OF_TWELVE :: byte where
  "ARRAY_OF_TWELVE = 0x9c"

subsection \<open>Sequencing of calls that may throw\<close>

definition and_then :: "error + 'a \<Rightarrow> ('a \<Rightarrow> error + 'b) \<Rightarrow> error + 'b" where
  "and_then r f = (case r of Inl e \<Rightarrow> Inl e | Inr x \<Rightarrow> f x)"

subsection \<open>The primitive writer (inherited from 0.4.js)\<close>

text \<open>The \<open>k\<close> low bytes of a number, most significant first.\<close>

definition big_endian :: "nat \<Rightarrow> int \<Rightarrow> byte list" where
  "big_endian k n = map (\<lambda>i. word_of_int (n div 2 ^ (8 * i))) (rev [0..<k])"

text \<open>
  Modelled from the spec: the array header of the primitive writer (\<open>0.4.js\<close> is
  missing). "Writes the MessagePack array header appropriate to length (fixarray for
  \<open>\<le>\<close> 15 elements, 16-bit array header for \<open>\<le>\<close> 65535, 32-bit array header otherwise)."
\<close>

definition array_prefix :: "nat \<Rightarrow> byte list" where
  "array_prefix n =
     (if n \<le> 15 then [0x90 + word_of_nat n]
      else if n \<le> 65535 then 0xdc # big_endian 2 (int n)
      else 0xdd # big_endian 4 (int n))"

text \<open>
  Modelled from the spec: the map header of the primitive writer (\<open>0.4.js\<close> is missing).
  "Writes a map header sized to the key count": the MessagePack map family, with the
  widths of the array family.
\<close>

definition map_prefix :: "nat \<Rightarrow> byte list" where
  "map_prefix n =
     (if n \<le> 15 then [0x80 + word_of_nat n]
      else if n \<le> 65535 then 0xde # big_endian 2 (int n)
      else 0xdf # big_endian 4 (int n))"

text \<open>
  Modelled from the spec: the bytes of an integer (\<open>0.4.js\<close> is missing). "Chooses the
  narrowest binary-safe representation for n per the MessagePack integer family (fixint
  for small non-negative values; 8/16/32/64-bit unsigned or signed forms for larger
  magnitudes or negative values)"; "for integers in [0,127] the fixint form is used".
\<close>

definition integer_bytes :: "int \<Rightarrow> byte list" where
  "integer_bytes n =
     (if 0 \<le> n then
        (if n \<le> 127 then [word_of_int n]
         else if n \<le> 255 then 0xcc # big_endian 1 n
         else if n \<le> 65535 then 0xcd # big_endian 2 n
         else if n \<le> 4294967295 then 0xce # big_endian 4 n
         else 0xcf # big_endian 8 n)
      else
        (if - 128 \<le> n then 0xd0 # big_endian 1 n
         else if - 32768 \<le> n then 0xd1 # big_endian 2 n
         else if - 2147483648 \<le> n then 0xd2 # big_endian 4 n
         else 0xd3 # big_endian 8 n))"

text \<open>
  Modelled from the spec: \<open>_encodeByte\<close> (\<open>0.4.js\<close> is missing). "Writes one literal
  byte, offset+1."
\<close>

definition encodeByte :: "byte list \<Rightarrow> byte \<Rightarrow> byte list" where
  "encodeByte bytes b = bytes @ [b]"

text \<open>
  Modelled from the spec: \<open>_encodeArrayPrefix\<close> (\<open>0.4.js\<close> is missing). It is called
  with the trace and writes the header for its length.
\<close>

definition encodeArrayPrefix :: "byte list \<Rightarrow> 'a list \<Rightarrow> byte list" where
  "encodeArrayPrefix bytes val = bytes @ array_prefix (length val)"

text \<open>
  Modelled from the spec: \<open>_encodeId\<close> (\<open>0.4.js\<close> is missing). "Encodes a 64-bit
  unsigned identifier using the fixed 64-bit unsigned form (never a narrower form)."
\<close>

definition id_bytes :: "64 word \<Rightarrow> byte list" where
  "id_bytes w = 0xcf # big_endian 8 (uint w)"

definition encodeId :: "byte list \<Rightarrow> 64 word \<Rightarrow> byte list" where
  "encodeId bytes w = bytes @ id_bytes w"

text \<open>
  Modelled from the spec: \<open>_encodeInteger\<close> (\<open>0.4.js\<close> is missing). The argument is
  what the caller passes, \<open>None\<close> being a value that is not a number (\<open>undefined\<close>, a
  function, an object). "A value outside the supported identifier/integer range ... is a
  programming-contract violation -- fails fast rather than silently truncating"; the
  range is that of \<open>int64\<close> and \<open>uint64\<close>.
\<close>

definition encodeInteger :: "byte list \<Rightarrow> int option \<Rightarrow> error + byte list" where
  "encodeInteger bytes val =
     (case val of
        None \<Rightarrow> Inl ContractViolation
      | Some n \<Rightarrow>
          if - (2 ^ 63) \<le> n \<and> n < 2 ^ 64 then Inr (bytes @ integer_bytes n)
          else Inl ContractViolation)"

text \<open>
  Modelled from the spec: how a number is written as a map value (\<open>0.4.js\<close> is
  missing): the MessagePack 64-bit float, the tag \<open>0xcb\<close> and the eight bytes of the
  double.
\<close>

definition float_bytes :: "64 word \<Rightarrow> byte list" where
  "float_bytes w = 0xcb # big_endian 8 (uint w)"

text \<open>
  Modelled from the spec: \<open>Chunk.write\<close> of the string region (\<open>chunk.js\<close> is
  missing). "Its raw bytes are appended to the string-byte region."
\<close>

definition string_bytes :: "string \<Rightarrow> byte list" where
  "string_bytes v = map (\<lambda>c. of_char c) v"

definition chunk_write :: "byte list \<Rightarrow> string \<Rightarrow> byte list" where
  "chunk_write bytes v = bytes @ string_bytes v"

subsection \<open>Interning (0.5.js, lines 47 to 57)\<close>

text \<open>
  The names of the properties that an ordinary object inherits from
  \<open>Object.prototype\<close>. Their values are functions; the value of \<open>__proto__\<close> is an
  object.
\<close>

definition object_prototype_names :: "string list" where
  "object_prototype_names =
     [''constructor'', ''__defineGetter__'', ''__defineSetter__'', ''hasOwnProperty'',
      ''__lookupGetter__'', ''__lookupSetter__'', ''isPrototypeOf'',
      ''propertyIsEnumerable'', ''toString'', ''valueOf'', ''__proto__'',
      ''toLocaleString'']"

text \<open>
  \<open>value in this._stringMap\<close>: true of an own key and of an inherited name.
\<close>

definition has_property :: "encoder \<Rightarrow> string \<Rightarrow> bool" where
  "has_property s v =
     (case stringMap s v of Some i \<Rightarrow> True | None \<Rightarrow> v \<in> set object_prototype_names)"

text \<open>
  \<open>this._stringMap[value]\<close>: the index of an own key; the inherited function or
  object for an inherited name that is no own key; \<open>undefined\<close> otherwise.
\<close>

datatype property = Index nat | Inherited | Undefined

definition get_property :: "encoder \<Rightarrow> string \<Rightarrow> property" where
  "get_property s v =
     (case stringMap s v of
        Some i \<Rightarrow> Index i
      | None \<Rightarrow> if v \<in> set object_prototype_names then Inherited else Undefined)"

text \<open>A property as the integer writer receives it: only an index is a number.\<close>

definition as_number :: "property \<Rightarrow> int option" where
  "as_number p = (case p of Index i \<Rightarrow> Some (int i) | Inherited \<Rightarrow> None | Undefined \<Rightarrow> None)"

text \<open>
  \<open>_cacheString\<close>: if \<open>value in this._stringMap\<close> is false, the string gets the
  current \<open>_stringCount\<close>, the counter is incremented and the string is written to
  the string region. Otherwise nothing happens.
\<close>

definition cacheString :: "encoder \<Rightarrow> string \<Rightarrow> encoder" where
  "cacheString s v =
     (if \<not> has_property s v
      then s\<lparr>stringMap := (stringMap s)(v \<mapsto> stringCount s),
             stringCount := stringCount s + 1,
             stringBytes := chunk_write (stringBytes s) v\<rparr>
      else s)"

text \<open>The default of the parameter of \<open>_encodeString\<close>: \<open>value = ''\<close>.\<close>

definition or_empty :: "string option \<Rightarrow> string" where
  "or_empty v = (case v of None \<Rightarrow> [] | Some x \<Rightarrow> x)"

text \<open>
  \<open>_encodeString\<close>: interns the value, then writes \<open>this._stringMap[value]\<close> to
  \<open>bytes\<close> as an integer. \<open>bytes\<close> is always the trace region of the encoder.
\<close>

definition encodeString :: "encoder \<Rightarrow> string option \<Rightarrow> error + encoder" where
  "encodeString s v =
     (let val = or_empty v;
          s1 = cacheString s val
      in and_then (encodeInteger (traceBytes s1) (as_number (get_property s1 val)))
           (\<lambda>b. Inr (s1\<lparr>traceBytes := b\<rparr>)))"

subsection \<open>Maps (inherited from 0.4.js)\<close>

text \<open>
  Modelled from the spec: \<open>_encodeMap\<close> (\<open>0.4.js\<close> is missing). "Writes a map header
  sized to the key count, followed by each key (string) and value (string or number,
  matching the field's declared value type) in iteration order." Strings go through
  \<open>_encodeString\<close>, which this class overrides. A value that is neither a string nor a
  number is a schema violation, which "fails immediately at the point of encoding that
  field".
\<close>

definition encodeValue :: "encoder \<Rightarrow> jsvalue \<Rightarrow> error + encoder" where
  "encodeValue s v =
     (case v of
        StringValue x \<Rightarrow> encodeString s (Some x)
      | NumberValue w \<Rightarrow> Inr (s\<lparr>traceBytes := traceBytes s @ float_bytes w\<rparr>)
      | OtherValue \<Rightarrow> Inl SchemaViolation)"

fun encodeEntries :: "encoder \<Rightarrow> (string \<times> jsvalue) list \<Rightarrow> error + encoder" where
  "encodeEntries s [] = Inr s"
| "encodeEntries s ((k, v) # kvs) =
     and_then (encodeString s (Some k)) (\<lambda>s.
     and_then (encodeValue s v) (\<lambda>s.
     encodeEntries s kvs))"

definition encodeMap :: "encoder \<Rightarrow> (string \<times> jsvalue) list \<Rightarrow> error + encoder" where
  "encodeMap s kvs =
     encodeEntries (s\<lparr>traceBytes := traceBytes s @ map_prefix (length kvs)\<rparr>) kvs"

subsection \<open>Encoding a trace (0.5.js, lines 27 to 45)\<close>

text \<open>\<open>x || 0\<close> on a number that may be missing, and \<open>x || {}\<close> on an object.\<close>

definition or_zero :: "int option \<Rightarrow> int" where
  "or_zero v = (case v of None \<Rightarrow> 0 | Some n \<Rightarrow> n)"

definition or_no_entries :: "(string \<times> jsvalue) list option \<Rightarrow> (string \<times> jsvalue) list" where
  "or_no_entries v = (case v of None \<Rightarrow> [] | Some kvs \<Rightarrow> kvs)"

text \<open>A write to \<open>bytes\<close>, the trace region.\<close>

definition to_trace :: "encoder \<Rightarrow> error + byte list \<Rightarrow> error + encoder" where
  "to_trace s r = and_then r (\<lambda>b. Inr (s\<lparr>traceBytes := b\<rparr>))"

text \<open>The body of the loop of \<open>_encode\<close>: the thirteen calls made for one span.\<close>

definition encode_span :: "encoder \<Rightarrow> span \<Rightarrow> error + encoder" where
  "encode_span s sp =
     and_then (to_trace s (Inr (encodeByte (traceBytes s) ARRAY_OF_TWELVE))) (\<lambda>s.
     and_then (encodeString s (service sp)) (\<lambda>s.
     and_then (encodeString s (name sp)) (\<lambda>s.
     and_then (encodeString s (resource sp)) (\<lambda>s.
     and_then (to_trace s (Inr (encodeId (traceBytes s) (trace_id sp)))) (\<lambda>s.
     and_then (to_trace s (Inr (encodeId (traceBytes s) (span_id sp)))) (\<lambda>s.
     and_then (to_trace s (Inr (encodeId (traceBytes s) (parent_id sp)))) (\<lambda>s.
     and_then (to_trace s (encodeInteger (traceBytes s) (Some (or_zero (start sp))))) (\<lambda>s.
     and_then (to_trace s (encodeInteger (traceBytes s) (Some (or_zero (duration sp))))) (\<lambda>s.
     and_then (to_trace s (encodeInteger (traceBytes s) (error sp))) (\<lambda>s.
     and_then (encodeMap s (or_no_entries (meta sp))) (\<lambda>s.
     and_then (encodeMap s (or_no_entries (metrics sp))) (\<lambda>s.
     encodeString s (type sp)))))))))))))"

text \<open>The loop \<open>for (const span of trace)\<close>.\<close>

fun encode_spans :: "encoder \<Rightarrow> span list \<Rightarrow> error + encoder" where
  "encode_spans s [] = Inr s"
| "encode_spans s (sp # sps) = and_then (encode_span s sp) (\<lambda>s. encode_spans s sps)"

text \<open>\<open>_encode\<close>: the array header for the spans of the trace, then the spans.\<close>

definition encode_trace :: "encoder \<Rightarrow> trace \<Rightarrow> error + encoder" where
  "encode_trace s t =
     encode_spans (s\<lparr>traceBytes := encodeArrayPrefix (traceBytes s) t\<rparr>) t"

text \<open>
  Modelled from the spec: \<open>encode\<close> (\<open>0.4.js\<close> is missing). The batch holds "a
  trace-byte region (concatenation of per-trace encodings, with a running outer
  array-length prefix)": the call counts the trace and encodes it into the trace region.
\<close>

definition encode :: "encoder \<Rightarrow> trace \<Rightarrow> error + encoder" where
  "encode s t = encode_trace (s\<lparr>traceCount := traceCount s + 1\<rparr>) t"

text \<open>The calls \<open>encode(trace)\<close> of one batch, in order; the first that throws ends it.\<close>

fun encode_batch :: "encoder \<Rightarrow> trace list \<Rightarrow> error + encoder" where
  "encode_batch s [] = Inr s"
| "encode_batch s (t # ts) = and_then (encode s t) (\<lambda>s. encode_batch s ts)"

subsection \<open>Assembling the payload (0.5.js, lines 9 to 25 and 59 to 64)\<close>

text \<open>
  Modelled from the spec: \<open>_reset\<close> (\<open>0.4.js\<close> is missing). "Resets batch state
  (trace-byte region, string-byte region, dictionary, counters) to empty."
\<close>

definition reset :: "encoder \<Rightarrow> encoder" where
  "reset s = s\<lparr>traceBytes := [], stringBytes := [], traceCount := 0, stringCount := 0,
               stringMap := Map.empty\<rparr>"

text \<open>
  Modelled from the spec: the state in which the constructor leaves an encoder
  (\<open>0.4.js\<close> is missing). "A Batch is created empty."
\<close>

definition fresh :: encoder where
  "fresh = \<lparr>traceBytes = [], stringBytes = [], traceCount = 0, stringCount = 0,
            stringMap = Map.empty\<rparr>"

text \<open>
  \<open>Buffer.allocUnsafe(n)\<close>: \<open>n\<close> bytes whose contents are whatever the memory held;
  \<open>mem\<close> gives the byte found at each position.
\<close>

definition allocUnsafe :: "(nat \<Rightarrow> byte) \<Rightarrow> nat \<Rightarrow> byte list" where
  "allocUnsafe mem n = map mem [0..<n]"

text \<open>
  Writing a list of bytes into a buffer from an offset on, one index assignment each.
  An assignment past the end of a buffer is ignored, as \<open>list_update\<close> does.
\<close>

fun write_bytes :: "byte list \<Rightarrow> nat \<Rightarrow> byte list \<Rightarrow> byte list" where
  "write_bytes buffer offset [] = buffer"
| "write_bytes buffer offset (b # bs) = write_bytes (buffer[offset := b]) (offset + 1) bs"

text \<open>
  \<open>source.copy(target, targetStart, 0, sourceEnd)\<close> of a Node buffer: copies what fits
  into the target and returns the new target with the number of bytes copied.
\<close>

definition buffer_copy :: "byte list \<Rightarrow> byte list \<Rightarrow> nat \<Rightarrow> byte list \<times> nat" where
  "buffer_copy source target targetStart =
     (let n = min (length source) (length target - targetStart)
      in (take targetStart target @ take n source @ drop (targetStart + n) target, n))"

text \<open>
  Modelled from the spec: \<open>_writeArrayPrefix\<close> (\<open>0.4.js\<close> is missing): the header of
  a table, written at \<open>offset\<close>; returns the buffer and the offset behind the header.
  \<open>makePayload\<close> reserves five bytes for each of the two headers, and the
  specification has the size and the writes in lock-step ("no trailing unused bytes, no
  overflow"): the header is the "32-bit array header" of the primitive writer, the tag
  \<open>0xdd\<close> and the count in four bytes, whatever the count.
\<close>

definition table_header :: "nat \<Rightarrow> byte list" where
  "table_header n = 0xdd # big_endian 4 (int n)"

definition writeArrayPrefix :: "byte list \<Rightarrow> nat \<Rightarrow> nat \<Rightarrow> byte list \<times> nat" where
  "writeArrayPrefix buffer offset count =
     (write_bytes buffer offset (table_header count), offset + 5)"

text \<open>\<open>_writeStrings\<close>: the header for \<open>_stringCount\<close> entries, then the string region.\<close>

definition writeStrings :: "encoder \<Rightarrow> byte list \<Rightarrow> nat \<Rightarrow> byte list \<times> nat" where
  "writeStrings s buffer offset =
     (let (buffer, offset) = writeArrayPrefix buffer offset (stringCount s);
          (buffer, n) = buffer_copy (stringBytes s) buffer offset
      in (buffer, offset + n))"

text \<open>
  Modelled from the spec: \<open>_writeTraces\<close> (\<open>0.4.js\<close> is missing): "then the trace-table
  section", the header for the number of traces, then the trace region.
\<close>

definition writeTraces :: "encoder \<Rightarrow> byte list \<Rightarrow> nat \<Rightarrow> byte list \<times> nat" where
  "writeTraces s buffer offset =
     (let (buffer, offset) = writeArrayPrefix buffer offset (traceCount s);
          (buffer, n) = buffer_copy (traceBytes s) buffer offset
      in (buffer, offset + n))"

text \<open>
  \<open>makePayload\<close>: returns the buffer and leaves the encoder reset. The third component
  is the final value of \<open>offset\<close>, which the method computes and drops.
\<close>

definition makePayload :: "(nat \<Rightarrow> byte) \<Rightarrow> encoder \<Rightarrow> byte list \<times> encoder \<times> nat" where
  "makePayload mem s =
     (let prefixSize = 1;
          stringSize = length (stringBytes s) + 5;
          traceSize = length (traceBytes s) + 5;
          buffer = allocUnsafe mem (prefixSize + stringSize + traceSize);
          offset = 0;
          buffer = buffer[offset := ARRAY_OF_TWO];
          offset = offset + 1;
          (buffer, offset) = writeStrings s buffer offset;
          (buffer, offset) = writeTraces s buffer offset
      in (buffer, reset s, offset))"

subsection \<open>The string table and the layout of the trace region\<close>

text \<open>
  The string table of a batch is the list of its distinct strings in the order of their
  first occurrence; the index of a string is its position in that list.
\<close>

definition intern :: "string list \<Rightarrow> string \<Rightarrow> string list" where
  "intern tbl v = (if v \<in> set tbl then tbl else tbl @ [v])"

definition intern_all :: "string list \<Rightarrow> string list \<Rightarrow> string list" where
  "intern_all tbl vs = foldl intern tbl vs"

definition first_seen :: "string list \<Rightarrow> string list" where
  "first_seen vs = rev (remdups (rev vs))"

fun index_in :: "string list \<Rightarrow> string \<Rightarrow> nat" where
  "index_in [] v = 0"
| "index_in (x # xs) v = (if x = v then 0 else Suc (index_in xs v))"

text \<open>
  The dictionary of the encoder holds the table \<open>tbl\<close>: the object maps the strings of
  the table to their positions, the counter is the length of the table, and the string
  region is the strings of the table one after the other.
\<close>

definition table_for :: "encoder \<Rightarrow> string list \<Rightarrow> bool" where
  "table_for s tbl \<longleftrightarrow>
     distinct tbl \<and>
     stringCount s = length tbl \<and>
     stringMap s = map_of (zip tbl [0..<length tbl]) \<and>
     stringBytes s = concat (map string_bytes tbl)"

text \<open>The strings that the encoding of a span interns, in the order of the calls.\<close>

definition value_strings :: "jsvalue \<Rightarrow> string list" where
  "value_strings v = (case v of StringValue x \<Rightarrow> [x] | _ \<Rightarrow> [])"

definition entries_strings :: "(string \<times> jsvalue) list \<Rightarrow> string list" where
  "entries_strings kvs = concat (map (\<lambda>(k, v). k # value_strings v) kvs)"

definition span_strings :: "span \<Rightarrow> string list" where
  "span_strings sp =
     [case service sp of None \<Rightarrow> [] | Some x \<Rightarrow> x,
      case name sp of None \<Rightarrow> [] | Some x \<Rightarrow> x,
      case resource sp of None \<Rightarrow> [] | Some x \<Rightarrow> x]
     @ entries_strings (case meta sp of None \<Rightarrow> [] | Some kvs \<Rightarrow> kvs)
     @ entries_strings (case metrics sp of None \<Rightarrow> [] | Some kvs \<Rightarrow> kvs)
     @ [case type sp of None \<Rightarrow> [] | Some x \<Rightarrow> x]"

definition trace_strings :: "trace \<Rightarrow> string list" where
  "trace_strings t = concat (map span_strings t)"

definition batch_strings :: "trace list \<Rightarrow> string list" where
  "batch_strings ts = concat (map trace_strings ts)"

text \<open>
  The wire format of the specification, for a given string table: "each span is a
  fixed-arity array of exactly 12 fields in the order: service, name, resource, trace_id,
  span_id, parent_id, start, duration, error, meta, metrics, type", where a string is
  the integer that is its index in the table.
\<close>

definition ref_bytes :: "string list \<Rightarrow> string \<Rightarrow> byte list" where
  "ref_bytes tbl v = integer_bytes (int (index_in tbl v))"

definition value_bytes :: "string list \<Rightarrow> jsvalue \<Rightarrow> byte list" where
  "value_bytes tbl v =
     (case v of
        StringValue x \<Rightarrow> ref_bytes tbl x
      | NumberValue w \<Rightarrow> float_bytes w
      | OtherValue \<Rightarrow> [])"

definition entries_bytes :: "string list \<Rightarrow> (string \<times> jsvalue) list \<Rightarrow> byte list" where
  "entries_bytes tbl kvs = concat (map (\<lambda>(k, v). ref_bytes tbl k @ value_bytes tbl v) kvs)"

definition map_bytes :: "string list \<Rightarrow> (string \<times> jsvalue) list \<Rightarrow> byte list" where
  "map_bytes tbl kvs = map_prefix (length kvs) @ entries_bytes tbl kvs"

definition span_fields :: "string list \<Rightarrow> span \<Rightarrow> byte list list" where
  "span_fields tbl sp =
     [ref_bytes tbl (case service sp of None \<Rightarrow> [] | Some x \<Rightarrow> x),
      ref_bytes tbl (case name sp of None \<Rightarrow> [] | Some x \<Rightarrow> x),
      ref_bytes tbl (case resource sp of None \<Rightarrow> [] | Some x \<Rightarrow> x),
      id_bytes (trace_id sp),
      id_bytes (span_id sp),
      id_bytes (parent_id sp),
      integer_bytes (case start sp of None \<Rightarrow> 0 | Some n \<Rightarrow> n),
      integer_bytes (case duration sp of None \<Rightarrow> 0 | Some n \<Rightarrow> n),
      (case error sp of None \<Rightarrow> [] | Some e \<Rightarrow> integer_bytes e),
      map_bytes tbl (case meta sp of None \<Rightarrow> [] | Some kvs \<Rightarrow> kvs),
      map_bytes tbl (case metrics sp of None \<Rightarrow> [] | Some kvs \<Rightarrow> kvs),
      ref_bytes tbl (case type sp of None \<Rightarrow> [] | Some x \<Rightarrow> x)]"

definition span_bytes :: "string list \<Rightarrow> span \<Rightarrow> byte list" where
  "span_bytes tbl sp = array_prefix 12 @ concat (span_fields tbl sp)"

definition trace_bytes :: "string list \<Rightarrow> trace \<Rightarrow> byte list" where
  "trace_bytes tbl t = array_prefix (length t) @ concat (map (span_bytes tbl) t)"

text \<open>
  The size of the payload as the specification computes it: "1 byte (outer 2-element
  array header) + (string-table header size + string-byte-region length) + (trace-table
  header size + trace-byte-region length), where each table's header size depends on the
  element count (dictionary size / trace count) per the array-prefix width rule".
\<close>

definition header_size :: "nat \<Rightarrow> nat" where
  "header_size n = (if n \<le> 15 then 1 else if n \<le> 65535 then 3 else 5)"

definition spec_payload_size :: "encoder \<Rightarrow> nat" where
  "spec_payload_size s =
     1 + (header_size (stringCount s) + length (stringBytes s))
       + (header_size (traceCount s) + length (traceBytes s))"

text \<open>A memory that holds zeros, and one that holds \<open>0xff\<close>.\<close>

definition zero_mem :: "nat \<Rightarrow> byte" where
  "zero_mem i = 0"

definition ones_mem :: "nat \<Rightarrow> byte" where
  "ones_mem i = 0xff"

text \<open>
  A step of the encoder emits the strings \<open>strs\<close> and the bytes \<open>bytes\<close>: run on a
  dictionary that holds a table, it leaves the table extended by \<open>strs\<close>, and what it
  appended to the trace region is \<open>bytes\<close>, read against that table or any later one.
\<close>

definition emits :: "(encoder \<Rightarrow> error + encoder) \<Rightarrow> string list \<Rightarrow> (string list \<Rightarrow> byte list) \<Rightarrow> bool" where
  "emits f strs bytes \<longleftrightarrow>
     (\<forall>s tbl s'. table_for s tbl \<longrightarrow> f s = Inr s' \<longrightarrow>
        table_for s' (intern_all tbl strs) \<and>
        (\<forall>ws. traceBytes s' = traceBytes s @ bytes (intern_all tbl (strs @ ws))))"

subsection \<open>Inputs that the encoder accepts\<close>

text \<open>
  The integers of a span are in the range that the integer writer accepts, the error
  flag is present, and every value of \<open>meta\<close> and \<open>metrics\<close> is a string or a number.
\<close>

definition in_range :: "int \<Rightarrow> bool" where
  "in_range n \<longleftrightarrow> - (2 ^ 63) \<le> n \<and> n < 2 ^ 64"

definition value_ok :: "jsvalue \<Rightarrow> bool" where
  "value_ok v = (case v of OtherValue \<Rightarrow> False | _ \<Rightarrow> True)"

definition entries_ok :: "(string \<times> jsvalue) list \<Rightarrow> bool" where
  "entries_ok kvs = list_all (\<lambda>(k, v). value_ok v) kvs"

definition span_ok :: "span \<Rightarrow> bool" where
  "span_ok sp \<longleftrightarrow>
     (case start sp of None \<Rightarrow> True | Some n \<Rightarrow> in_range n)
     \<and> (case duration sp of None \<Rightarrow> True | Some n \<Rightarrow> in_range n)
     \<and> (case error sp of None \<Rightarrow> False | Some e \<Rightarrow> in_range e)
     \<and> (case meta sp of None \<Rightarrow> True | Some kvs \<Rightarrow> entries_ok kvs)
     \<and> (case metrics sp of None \<Rightarrow> True | Some kvs \<Rightarrow> entries_ok kvs)"

text \<open>None of the strings is a name that \<open>_stringMap\<close> inherits.\<close>

definition names_ok :: "string list \<Rightarrow> bool" where
  "names_ok vs = list_all (\<lambda>v. v \<notin> set object_prototype_names) vs"

definition batch_ok :: "trace list \<Rightarrow> bool" where
  "batch_ok ts = list_all (list_all span_ok) ts"

text \<open>
  A step of the encoder completes: run on a dictionary that holds a table which, extended
  by the strings of the step, stays below \<open>2 ^ 64\<close> entries, and with strings none of
  which is an inherited name, it returns, and leaves the extended table.
\<close>

definition completes :: "(encoder \<Rightarrow> error + encoder) \<Rightarrow> string list \<Rightarrow> bool" where
  "completes f strs \<longleftrightarrow>
     (\<forall>s tbl. table_for s tbl \<longrightarrow> length (intern_all tbl strs) < 2 ^ 64 \<longrightarrow> names_ok strs \<longrightarrow>
        (\<exists>s'. f s = Inr s' \<and> table_for s' (intern_all tbl strs)))"

subsection \<open>Sample spans\<close>

definition sp_a :: span where
  "sp_a = \<lparr>service = Some ''web'', name = Some ''GET /a'', resource = None,
     trace_id = 1, span_id = 1, parent_id = 0, start = None, duration = Some 300,
     error = Some 0, meta = Some [(''env'', StringValue ''web'')],
     metrics = Some [(''k'', NumberValue 5)], type = Some ''''\<rparr>"

definition sp_b :: span where
  "sp_b = \<lparr>service = Some ''web'', name = Some ''GET /b'', resource = None,
     trace_id = 1, span_id = 2, parent_id = 1, start = Some 7, duration = None,
     error = Some 1, meta = None, metrics = None, type = None\<rparr>"

text \<open>A span without start and duration.\<close>

definition sp_d :: span where
  "sp_d = \<lparr>service = Some ''db'', name = Some ''query'', resource = None,
     trace_id = 3, span_id = 4, parent_id = 0, start = None, duration = None,
     error = Some 1, meta = None, metrics = None, type = None\<rparr>"

text \<open>A span of a service whose name is the name of an inherited property.\<close>

definition sp_c :: span where
  "sp_c = \<lparr>service = Some ''constructor'', name = Some ''GET /c'', resource = None,
     trace_id = 2, span_id = 3, parent_id = 0, start = Some 7, duration = Some 9,
     error = Some 0, meta = None, metrics = None, type = None\<rparr>"

section \<open>Basic facts\<close>

lemma and_then_Inr [simp]: "and_then (Inr x) f = f x"
  by (simp add: and_then_def)

lemma and_then_Inl [simp]: "and_then (Inl e) f = Inl e"
  by (simp add: and_then_def)

lemma and_then_eq_Inr: "and_then r f = Inr y \<longleftrightarrow> (\<exists>x. r = Inr x \<and> f x = Inr y)"
  by (cases r) simp_all

lemma to_trace_Inr [simp]: "to_trace s (Inr b) = Inr (s\<lparr>traceBytes := b\<rparr>)"
  by (simp add: to_trace_def)

lemma index_in_append: "v \<in> set tbl \<Longrightarrow> index_in (tbl @ ys) v = index_in tbl v"
  by (induction tbl) auto

lemma index_in_new: "v \<notin> set tbl \<Longrightarrow> index_in (tbl @ [v]) v = length tbl"
  by (induction tbl) auto

lemma index_in_less: "v \<in> set tbl \<Longrightarrow> index_in tbl v < length tbl"
  by (induction tbl) auto

lemma nth_index_in: "v \<in> set tbl \<Longrightarrow> tbl ! index_in tbl v = v"
  by (induction tbl) auto

lemma index_in_nth: "distinct tbl \<Longrightarrow> i < length tbl \<Longrightarrow> index_in tbl (tbl ! i) = i"
proof (induction tbl arbitrary: i)
  case Nil
  then show ?case by simp
next
  case (Cons x xs)
  then show ?case by (cases i) auto
qed

lemma map_of_zip_from:
  "map_of (zip tbl [k..<k + length tbl]) v = (if v \<in> set tbl then Some (k + index_in tbl v) else None)"
proof (induction tbl arbitrary: k)
  case Nil
  then show ?case by simp
next
  case (Cons x xs)
  have "[k..<k + length (x # xs)] = k # [Suc k..<Suc k + length xs]"
    by (subst upt_rec) simp
  then show ?case using Cons [of "Suc k"] by auto
qed

lemma map_of_table:
  "map_of (zip tbl [0..<length tbl]) v = (if v \<in> set tbl then Some (index_in tbl v) else None)"
  using map_of_zip_from [of tbl 0 v] by simp

lemma table_for_lookup:
  "table_for s tbl \<Longrightarrow> stringMap s v = (if v \<in> set tbl then Some (index_in tbl v) else None)"
  by (simp add: table_for_def map_of_table)

lemma set_intern [simp]: "set (intern tbl v) = insert v (set tbl)"
  by (auto simp: intern_def)

lemma distinct_intern [simp]: "distinct (intern tbl v) = distinct tbl"
  by (simp add: intern_def)

lemma intern_all_Nil [simp]: "intern_all tbl [] = tbl"
  by (simp add: intern_all_def)

lemma intern_all_Cons [simp]: "intern_all tbl (v # vs) = intern_all (intern tbl v) vs"
  by (simp add: intern_all_def)

lemma intern_all_append: "intern_all tbl (xs @ ys) = intern_all (intern_all tbl xs) ys"
  by (simp add: intern_all_def)

lemma set_intern_all [simp]: "set (intern_all tbl vs) = set tbl \<union> set vs"
  by (induction vs arbitrary: tbl) auto

lemma distinct_intern_all [simp]: "distinct (intern_all tbl vs) = distinct tbl"
  by (induction vs arbitrary: tbl) auto

lemma index_in_intern: "v \<in> set tbl \<Longrightarrow> index_in (intern tbl w) v = index_in tbl v"
  by (simp add: intern_def index_in_append)

lemma index_in_intern_all: "v \<in> set tbl \<Longrightarrow> index_in (intern_all tbl vs) v = index_in tbl v"
  by (induction vs arbitrary: tbl) (simp_all add: index_in_intern)

lemma length_intern_all: "length tbl \<le> length (intern_all tbl vs)"
proof (induction vs arbitrary: tbl)
  case Nil
  then show ?case by simp
next
  case (Cons v vs)
  have "length tbl \<le> length (intern tbl v)" by (simp add: intern_def)
  also have "\<dots> \<le> length (intern_all (intern tbl v) vs)" by (rule Cons.IH)
  finally show ?case by simp
qed

lemma remdups_snoc: "remdups (xs @ [v]) = filter (\<lambda>x. x \<noteq> v) (remdups xs) @ [v]"
  by (induction xs) auto

lemma first_seen_Nil [simp]: "first_seen [] = []"
  by (simp add: first_seen_def)

lemma first_seen_Cons: "first_seen (v # vs) = v # filter (\<lambda>x. x \<noteq> v) (first_seen vs)"
  by (simp add: first_seen_def remdups_snoc rev_filter)

lemma intern_all_first_seen_gen:
  "intern_all tbl vs = tbl @ filter (\<lambda>x. x \<notin> set tbl) (first_seen vs)"
proof (induction vs arbitrary: tbl)
  case Nil
  then show ?case by simp
next
  case (Cons v vs)
  show ?case
  proof (cases "v \<in> set tbl")
    case True
    then have "filter (\<lambda>x. x \<notin> set tbl) (filter (\<lambda>x. x \<noteq> v) (first_seen vs))
      = filter (\<lambda>x. x \<notin> set tbl) (first_seen vs)"
      by (auto intro: filter_cong)
    with True show ?thesis by (simp add: Cons.IH first_seen_Cons intern_def)
  next
    case False
    have "filter (\<lambda>x. x \<notin> set (tbl @ [v])) (first_seen vs)
      = filter (\<lambda>x. x \<notin> set tbl) (filter (\<lambda>x. x \<noteq> v) (first_seen vs))"
      by (auto intro: filter_cong)
    with False show ?thesis by (simp add: Cons.IH first_seen_Cons intern_def)
  qed
qed

lemma intern_all_first_seen: "intern_all [] vs = first_seen vs"
  by (simp add: intern_all_first_seen_gen)

lemma table_for_fresh: "table_for fresh []"
  by (simp add: table_for_def fresh_def)

lemma table_for_traceBytes [simp]: "table_for (s\<lparr>traceBytes := b\<rparr>) tbl = table_for s tbl"
  by (simp add: table_for_def)

lemma table_for_traceCount [simp]: "table_for (s\<lparr>traceCount := n\<rparr>) tbl = table_for s tbl"
  by (simp add: table_for_def)

lemma map_of_table_snoc:
  assumes "v \<notin> set (tbl :: string list)"
  shows "map_of (zip (tbl @ [v]) [0..<length (tbl @ [v])]) = (map_of (zip tbl [0..<length tbl]))(v \<mapsto> length tbl)"
proof
  fix k
  show "map_of (zip (tbl @ [v]) [0..<length (tbl @ [v])]) k = ((map_of (zip tbl [0..<length tbl]))(v \<mapsto> length tbl)) k"
    using assms by (simp only: map_of_table fun_upd_apply) (auto simp: index_in_new index_in_append)
qed

lemma cacheString_present: "stringMap s v = Some i \<Longrightarrow> cacheString s v = s"
  by (simp add: cacheString_def has_property_def)

lemma cacheString_inherited: "v \<in> set object_prototype_names \<Longrightarrow> cacheString s v = s"
  by (simp add: cacheString_def has_property_def split: option.splits)

lemma table_for_cacheString:
  assumes "table_for s tbl" and ok: "v \<in> set tbl \<or> v \<notin> set object_prototype_names"
  shows "table_for (cacheString s v) (intern tbl v)"
proof (cases "v \<in> set tbl")
  case True
  with assms have "stringMap s v = Some (index_in tbl v)" by (simp add: table_for_lookup)
  then have "cacheString s v = s" by (rule cacheString_present)
  with True assms show ?thesis by (simp add: intern_def)
next
  case False
  with assms have none: "stringMap s v = None" by (simp add: table_for_lookup)
  with False ok have step: "cacheString s v = s\<lparr>stringMap := (stringMap s)(v \<mapsto> stringCount s),
      stringCount := stringCount s + 1, stringBytes := chunk_write (stringBytes s) v\<rparr>"
    by (simp add: cacheString_def has_property_def)
  have "map_of (zip (tbl @ [v]) [0..<length (tbl @ [v])]) = (stringMap s)(v \<mapsto> stringCount s)"
    using assms map_of_table_snoc [OF False] by (simp add: table_for_def)
  with False assms show ?thesis
    unfolding step by (simp add: table_for_def intern_def chunk_write_def)
qed

lemma cacheString_traceBytes [simp]: "traceBytes (cacheString s v) = traceBytes s"
  by (simp add: cacheString_def)

lemma cacheString_traceCount [simp]: "traceCount (cacheString s v) = traceCount s"
  by (simp add: cacheString_def)

lemma as_number_Some: "as_number (get_property s v) = Some n \<longleftrightarrow> (\<exists>i. stringMap s v = Some i \<and> n = int i)"
  by (auto simp: as_number_def get_property_def split: option.splits)


lemma emitsI:
  assumes "\<And>s tbl s' ws. table_for s tbl \<Longrightarrow> f s = Inr s' \<Longrightarrow>
    table_for s' (intern_all tbl strs) \<and> traceBytes s' = traceBytes s @ bytes (intern_all tbl (strs @ ws))"
  shows "emits f strs bytes"
  unfolding emits_def using assms by blast

lemma emitsD:
  assumes "emits f strs bytes" and "table_for s tbl" and "f s = Inr s'"
  shows "table_for s' (intern_all tbl strs)"
    and "traceBytes s' = traceBytes s @ bytes (intern_all tbl (strs @ ws))"
  using assms unfolding emits_def by blast+

lemma emits_cong:
  "emits f xs b \<Longrightarrow> f = f' \<Longrightarrow> xs = xs' \<Longrightarrow> b = b' \<Longrightarrow> emits f' xs' b'"
  by simp

lemma emits_seq:
  assumes f: "emits f xs bf" and g: "emits g ys bg"
  shows "emits (\<lambda>s. and_then (f s) g) (xs @ ys) (\<lambda>tbl. bf tbl @ bg tbl)"
proof (rule emitsI)
  fix s tbl s' ws
  assume tbl: "table_for s tbl" and run: "and_then (f s) g = Inr s'"
  from run obtain s1 where s1: "f s = Inr s1" and s': "g s1 = Inr s'"
    by (auto simp: and_then_eq_Inr)
  have t1: "table_for s1 (intern_all tbl xs)"
    and b1: "traceBytes s1 = traceBytes s @ bf (intern_all tbl (xs @ (ys @ ws)))"
    using emitsD [OF f tbl s1] by blast+
  have t2: "table_for s' (intern_all (intern_all tbl xs) ys)"
    and b2: "traceBytes s' = traceBytes s1 @ bg (intern_all (intern_all tbl xs) (ys @ ws))"
    using emitsD [OF g t1 s'] by blast+
  show "table_for s' (intern_all tbl (xs @ ys)) \<and>
    traceBytes s' = traceBytes s @ bf (intern_all tbl ((xs @ ys) @ ws)) @ bg (intern_all tbl ((xs @ ys) @ ws))"
    using t2 b1 b2 by (simp add: intern_all_append)
qed

lemma emits_append: "emits (\<lambda>s. to_trace s (Inr (traceBytes s @ bs))) [] (\<lambda>tbl. bs)"
  by (rule emitsI) (auto simp: to_trace_def)

lemma emits_encodeByte: "emits (\<lambda>s. to_trace s (Inr (encodeByte (traceBytes s) b))) [] (\<lambda>tbl. [b])"
  unfolding encodeByte_def by (rule emits_append)

lemma emits_encodeId: "emits (\<lambda>s. to_trace s (Inr (encodeId (traceBytes s) w))) [] (\<lambda>tbl. id_bytes w)"
  unfolding encodeId_def by (rule emits_append)

lemma encodeInteger_Inr:
  "encodeInteger bytes val = Inr b \<longleftrightarrow>
     (\<exists>n. val = Some n \<and> - (2 ^ 63) \<le> n \<and> n < 2 ^ 64 \<and> b = bytes @ integer_bytes n)"
  by (auto simp: encodeInteger_def split: option.splits)

lemma emits_encodeInteger:
  "emits (\<lambda>s. to_trace s (encodeInteger (traceBytes s) val)) []
     (\<lambda>tbl. case val of None \<Rightarrow> [] | Some n \<Rightarrow> integer_bytes n)"
  by (rule emitsI) (auto simp: to_trace_def and_then_eq_Inr encodeInteger_Inr)

lemma encodeString_Inr:
  assumes "encodeString s v = Inr s'"
  shows "\<exists>i. stringMap (cacheString s (or_empty v)) (or_empty v) = Some i \<and>
    s' = (cacheString s (or_empty v))\<lparr>traceBytes := traceBytes s @ integer_bytes (int i)\<rparr>"
  using assms
  by (auto simp: encodeString_def Let_def and_then_eq_Inr encodeInteger_Inr as_number_Some)

lemma emits_encodeString:
  "emits (\<lambda>s. encodeString s v) [or_empty v] (\<lambda>tbl. ref_bytes tbl (or_empty v))"
proof (rule emitsI)
  fix s tbl s' ws
  assume tbl: "table_for s tbl" and run: "encodeString s v = Inr s'"
  let ?v = "or_empty v"
  from encodeString_Inr [OF run] obtain i
    where i: "stringMap (cacheString s ?v) ?v = Some i"
      and s': "s' = (cacheString s ?v)\<lparr>traceBytes := traceBytes s @ integer_bytes (int i)\<rparr>"
    by blast
  have "?v \<in> set tbl \<or> ?v \<notin> set object_prototype_names"
  proof (rule ccontr)
    assume "\<not> (?v \<in> set tbl \<or> ?v \<notin> set object_prototype_names)"
    then have "?v \<notin> set tbl" and "cacheString s ?v = s"
      by (simp_all add: cacheString_inherited)
    with table_for_lookup [OF tbl, of ?v] i show False by simp
  qed
  with tbl have t1: "table_for (cacheString s ?v) (intern tbl ?v)"
    by (rule table_for_cacheString)
  from table_for_lookup [OF t1, of ?v] i have "i = index_in (intern tbl ?v) ?v"
    by simp
  then have "integer_bytes (int i) = ref_bytes (intern_all tbl ([?v] @ ws)) ?v"
    by (simp add: ref_bytes_def index_in_intern_all)
  with t1 s' show "table_for s' (intern_all tbl [?v]) \<and>
    traceBytes s' = traceBytes s @ ref_bytes (intern_all tbl ([?v] @ ws)) ?v"
    by simp
qed

lemma emits_encodeValue:
  "emits (\<lambda>s. encodeValue s v) (value_strings v) (\<lambda>tbl. value_bytes tbl v)"
proof (cases v)
  case (StringValue x)
  have "emits (\<lambda>s. encodeString s (Some x)) [or_empty (Some x)] (\<lambda>tbl. ref_bytes tbl (or_empty (Some x)))"
    by (rule emits_encodeString)
  then show ?thesis
    by (rule emits_cong) (simp_all add: StringValue encodeValue_def value_strings_def value_bytes_def or_empty_def)
next
  case (NumberValue w)
  have "emits (\<lambda>s. to_trace s (Inr (traceBytes s @ float_bytes w))) [] (\<lambda>tbl. float_bytes w)"
    by (rule emits_append)
  then show ?thesis
    by (rule emits_cong) (simp_all add: NumberValue encodeValue_def value_strings_def value_bytes_def to_trace_def)
next
  case OtherValue
  show ?thesis
    by (rule emitsI) (simp add: OtherValue encodeValue_def)
qed

lemma emits_encodeEntries:
  "emits (\<lambda>s. encodeEntries s kvs) (entries_strings kvs) (\<lambda>tbl. entries_bytes tbl kvs)"
proof (induction kvs)
  case Nil
  show ?case
    by (rule emitsI) (simp add: entries_strings_def entries_bytes_def)
next
  case (Cons kv kvs)
  obtain k v where kv: "kv = (k, v)" by (cases kv)
  have "emits (\<lambda>s. and_then (encodeString s (Some k)) (\<lambda>s. and_then (encodeValue s v) (\<lambda>s. encodeEntries s kvs)))
     ([or_empty (Some k)] @ (value_strings v @ entries_strings kvs))
     (\<lambda>tbl. ref_bytes tbl (or_empty (Some k)) @ (value_bytes tbl v @ entries_bytes tbl kvs))"
    by (intro emits_seq emits_encodeString emits_encodeValue Cons.IH)
  then show ?case
    by (rule emits_cong) (simp_all add: kv entries_strings_def entries_bytes_def or_empty_def)
qed

lemma emits_encodeMap:
  "emits (\<lambda>s. encodeMap s kvs) (entries_strings kvs) (\<lambda>tbl. map_bytes tbl kvs)"
proof -
  have "emits (\<lambda>s. and_then (to_trace s (Inr (traceBytes s @ map_prefix (length kvs)))) (\<lambda>s. encodeEntries s kvs))
     ([] @ entries_strings kvs) (\<lambda>tbl. map_prefix (length kvs) @ entries_bytes tbl kvs)"
    by (intro emits_seq emits_append emits_encodeEntries)
  then show ?thesis
    by (rule emits_cong) (simp_all add: encodeMap_def to_trace_def map_bytes_def)
qed

lemma array_prefix_12: "array_prefix 12 = [ARRAY_OF_TWELVE]"
  by (simp add: array_prefix_def ARRAY_OF_TWELVE_def)

lemma emits_encode_span:
  "emits (\<lambda>s. encode_span s sp) (span_strings sp) (\<lambda>tbl. span_bytes tbl sp)"
proof -
  have "emits (\<lambda>s. encode_span s sp)
     ([] @ [or_empty (service sp)] @ [or_empty (name sp)] @ [or_empty (resource sp)] @ [] @ [] @ []
        @ [] @ [] @ [] @ entries_strings (or_no_entries (meta sp))
        @ entries_strings (or_no_entries (metrics sp)) @ [or_empty (type sp)])
     (\<lambda>tbl. [ARRAY_OF_TWELVE] @ ref_bytes tbl (or_empty (service sp)) @ ref_bytes tbl (or_empty (name sp))
        @ ref_bytes tbl (or_empty (resource sp)) @ id_bytes (trace_id sp) @ id_bytes (span_id sp)
        @ id_bytes (parent_id sp)
        @ (case Some (or_zero (start sp)) of None \<Rightarrow> [] | Some n \<Rightarrow> integer_bytes n)
        @ (case Some (or_zero (duration sp)) of None \<Rightarrow> [] | Some n \<Rightarrow> integer_bytes n)
        @ (case error sp of None \<Rightarrow> [] | Some n \<Rightarrow> integer_bytes n)
        @ map_bytes tbl (or_no_entries (meta sp)) @ map_bytes tbl (or_no_entries (metrics sp))
        @ ref_bytes tbl (or_empty (type sp)))"
    unfolding encode_span_def
    by (intro emits_seq emits_encodeByte emits_encodeString emits_encodeId emits_encodeInteger
        emits_encodeMap)
  then show ?thesis
    by (rule emits_cong)
      (simp_all add: span_strings_def span_bytes_def span_fields_def array_prefix_12
        or_empty_def or_zero_def or_no_entries_def)
qed

lemma emits_encode_spans:
  "emits (\<lambda>s. encode_spans s sps) (trace_strings sps) (\<lambda>tbl. concat (map (span_bytes tbl) sps))"
proof (induction sps)
  case Nil
  show ?case by (rule emitsI) (simp add: trace_strings_def)
next
  case (Cons sp sps)
  have "emits (\<lambda>s. and_then (encode_span s sp) (\<lambda>s. encode_spans s sps))
     (span_strings sp @ trace_strings sps)
     (\<lambda>tbl. span_bytes tbl sp @ concat (map (span_bytes tbl) sps))"
    by (intro emits_seq emits_encode_span Cons.IH)
  then show ?case
    by (rule emits_cong) (simp_all add: trace_strings_def)
qed

lemma emits_encode_trace:
  "emits (\<lambda>s. encode_trace s t) (trace_strings t) (\<lambda>tbl. trace_bytes tbl t)"
proof -
  have "emits (\<lambda>s. and_then (to_trace s (Inr (traceBytes s @ array_prefix (length t)))) (\<lambda>s. encode_spans s t))
     ([] @ trace_strings t) (\<lambda>tbl. array_prefix (length t) @ concat (map (span_bytes tbl) t))"
    by (intro emits_seq emits_append emits_encode_spans)
  then show ?thesis
    by (rule emits_cong) (simp_all add: encode_trace_def encodeArrayPrefix_def to_trace_def trace_bytes_def)
qed

lemma emits_encode:
  "emits (\<lambda>s. encode s t) (trace_strings t) (\<lambda>tbl. trace_bytes tbl t)"
proof (rule emitsI)
  fix s tbl s' ws
  assume tbl: "table_for s tbl" and run: "encode s t = Inr s'"
  from tbl have t0: "table_for (s\<lparr>traceCount := traceCount s + 1\<rparr>) tbl" by simp
  from run have r0: "encode_trace (s\<lparr>traceCount := traceCount s + 1\<rparr>) t = Inr s'"
    by (simp add: encode_def)
  from emitsD(1) [OF emits_encode_trace t0 r0] emitsD(2) [OF emits_encode_trace t0 r0, of ws]
  show "table_for s' (intern_all tbl (trace_strings t)) \<and>
    traceBytes s' = traceBytes s @ trace_bytes (intern_all tbl (trace_strings t @ ws)) t"
    by simp
qed

lemma emits_encode_batch:
  "emits (\<lambda>s. encode_batch s ts) (batch_strings ts) (\<lambda>tbl. concat (map (trace_bytes tbl) ts))"
proof (induction ts)
  case Nil
  show ?case by (rule emitsI) (simp add: batch_strings_def)
next
  case (Cons t ts)
  have "emits (\<lambda>s. and_then (encode s t) (\<lambda>s. encode_batch s ts))
     (trace_strings t @ batch_strings ts)
     (\<lambda>tbl. trace_bytes tbl t @ concat (map (trace_bytes tbl) ts))"
    by (intro emits_seq emits_encode Cons.IH)
  then show ?case
    by (rule emits_cong) (simp_all add: batch_strings_def)
qed

subsection \<open>Writing into the payload buffer\<close>

lemma length_allocUnsafe [simp]: "length (allocUnsafe mem n) = n"
  by (simp add: allocUnsafe_def)

lemma length_table_header [simp]: "length (table_header n) = 5"
  by (simp add: table_header_def big_endian_def)

lemma write_bytes_at:
  "length bs \<le> length rest \<Longrightarrow>
     write_bytes (pre @ rest) (length pre) bs = pre @ bs @ drop (length bs) rest"
proof (induction bs arbitrary: pre rest)
  case Nil
  then show ?case by simp
next
  case (Cons b bs)
  then obtain r rs where rest: "rest = r # rs" by (cases rest) auto
  have "write_bytes ((pre @ [b]) @ rs) (length (pre @ [b])) bs = (pre @ [b]) @ bs @ drop (length bs) rs"
    using Cons.prems by (intro Cons.IH) (simp add: rest)
  then show ?case by (simp add: rest)
qed

lemma buffer_copy_at:
  "length src \<le> length rest \<Longrightarrow>
     buffer_copy src (pre @ rest) (length pre) = (pre @ src @ drop (length src) rest, length src)"
  by (simp add: buffer_copy_def Let_def min_def)

lemma write_section:
  assumes "5 + length src \<le> length rest"
  shows "(let (buffer, offset) = writeArrayPrefix (pre @ rest) (length pre) c;
              (buffer, n) = buffer_copy src buffer offset
          in (buffer, offset + n))
       = (pre @ table_header c @ src @ drop (5 + length src) rest,
          length pre + 5 + length src)"
proof -
  let ?h = "table_header c"
  have w: "writeArrayPrefix (pre @ rest) (length pre) c = ((pre @ ?h) @ drop (length ?h) rest, length (pre @ ?h))"
    using assms by (simp add: writeArrayPrefix_def write_bytes_at)
  have c: "buffer_copy src ((pre @ ?h) @ drop (length ?h) rest) (length (pre @ ?h))
    = ((pre @ ?h) @ src @ drop (length src) (drop (length ?h) rest), length src)"
    using assms by (intro buffer_copy_at) simp
  show ?thesis
    unfolding w prod.case c Let_def by (simp add: add.commute)
qed

lemma length_write_bytes [simp]: "length (write_bytes buffer offset bs) = length buffer"
  by (induction bs arbitrary: buffer offset) simp_all

lemma length_buffer_copy [simp]: "length (fst (buffer_copy src target offset)) = length target"
  by (auto simp: buffer_copy_def Let_def min_def)

lemma makePayload_eq:
  "makePayload mem s =
     (ARRAY_OF_TWO # table_header (stringCount s) @ stringBytes s
        @ table_header (traceCount s) @ traceBytes s,
      reset s, 11 + length (stringBytes s) + length (traceBytes s))"
proof -
  let ?hs = "table_header (stringCount s)" and ?ht = "table_header (traceCount s)"
  define buf where "buf = allocUnsafe mem (1 + (length (stringBytes s) + 5) + (length (traceBytes s) + 5))"
  define rest1 where "rest1 = drop 1 buf"
  define rest2 where "rest2 = drop (5 + length (stringBytes s)) rest1"
  define rest3 where "rest3 = drop (5 + length (traceBytes s)) rest2"
  define B1 where "B1 = [ARRAY_OF_TWO] @ ?hs @ stringBytes s"
  have len1: "length rest1 = 10 + length (stringBytes s) + length (traceBytes s)"
    by (simp add: rest1_def buf_def)
  have b1: "buf[0 := ARRAY_OF_TWO] = [ARRAY_OF_TWO] @ rest1"
    unfolding rest1_def by (cases buf) (simp_all add: buf_def allocUnsafe_def)
  have "5 + length (stringBytes s) \<le> length rest1"
    using len1 by simp
  from write_section [OF this, of "[ARRAY_OF_TWO]"]
  have s1: "writeStrings s ([ARRAY_OF_TWO] @ rest1) 1 = (B1 @ rest2, length B1)"
    by (simp add: writeStrings_def B1_def rest2_def)
  have "5 + length (traceBytes s) \<le> length rest2"
    using len1 by (simp add: rest2_def)
  from write_section [OF this, of B1]
  have s2: "writeTraces s (B1 @ rest2) (length B1)
    = (B1 @ ?ht @ traceBytes s @ rest3, length B1 + 5 + length (traceBytes s))"
    by (simp add: writeTraces_def rest3_def)
  have e: "length B1 + 5 + length (traceBytes s) = 11 + length (stringBytes s) + length (traceBytes s)"
    by (simp add: B1_def)
  have r: "rest3 = []"
    by (simp add: rest3_def rest2_def rest1_def buf_def)
  have "makePayload mem s =
    (case writeStrings s (buf[0 := ARRAY_OF_TWO]) 1 of (buffer, offset) \<Rightarrow>
       case writeTraces s buffer offset of (buffer, offset) \<Rightarrow> (buffer, reset s, offset))"
    by (simp add: makePayload_def Let_def buf_def)
  also have "\<dots> = (B1 @ ?ht @ traceBytes s @ rest3, reset s, 11 + length (stringBytes s) + length (traceBytes s))"
    unfolding b1 s1 prod.case s2 e ..
  finally show ?thesis
    by (simp add: B1_def r)
qed

lemma reset_fresh: "reset s = fresh"
  by (simp add: reset_def fresh_def)

lemma length_makePayload:
  "length (fst (makePayload mem s)) = 1 + (length (stringBytes s) + 5) + (length (traceBytes s) + 5)"
  by (simp add: makePayload_eq)

lemma table_header_0: "table_header 0 = [0xdd, 0, 0, 0, 0]"
  by (simp add: table_header_def big_endian_def upt_rec)

lemma makePayload_fresh:
  "fst (makePayload mem fresh) = [0x92, 0xdd, 0, 0, 0, 0, 0xdd, 0, 0, 0, 0]"
  by (simp add: makePayload_eq) (simp add: ARRAY_OF_TWO_def fresh_def table_header_0)

lemma array_prefix_not_Nil [simp]: "array_prefix n \<noteq> []"
  by (simp add: array_prefix_def)

lemma trace_bytes_not_Nil [simp]: "trace_bytes tbl t \<noteq> []"
  by (simp add: trace_bytes_def)

lemma encode_batch_traceBytes:
  assumes "encode_batch fresh ts = Inr s"
  shows "traceBytes s = concat (map (trace_bytes (first_seen (batch_strings ts))) ts)"
  using emitsD(2) [OF emits_encode_batch table_for_fresh assms, of "[]"]
  by (simp add: intern_all_first_seen fresh_def)

subsection \<open>The encoder returns on the inputs it accepts\<close>

lemma completesI:
  assumes "\<And>s tbl. table_for s tbl \<Longrightarrow> length (intern_all tbl strs) < 2 ^ 64 \<Longrightarrow> names_ok strs
      \<Longrightarrow> \<exists>s'. f s = Inr s'"
    and "emits f strs bytes"
  shows "completes f strs"
  unfolding completes_def using assms emitsD(1) by blast

lemma completesD:
  assumes "completes f strs" and "table_for s tbl" and "length (intern_all tbl strs) < 2 ^ 64"
    and "names_ok strs"
  shows "\<exists>s'. f s = Inr s' \<and> table_for s' (intern_all tbl strs)"
  using assms unfolding completes_def by blast

lemma completes_cong: "completes f xs \<Longrightarrow> f = f' \<Longrightarrow> xs = xs' \<Longrightarrow> completes f' xs'"
  by simp

lemma completes_seq:
  assumes f: "completes f xs" and g: "completes g ys"
  shows "completes (\<lambda>s. and_then (f s) g) (xs @ ys)"
  unfolding completes_def
proof (intro allI impI)
  fix s tbl
  assume tbl: "table_for s tbl" and len: "length (intern_all tbl (xs @ ys)) < 2 ^ 64"
    and names: "names_ok (xs @ ys)"
  from names have nx: "names_ok xs" and ny: "names_ok ys" by (simp_all add: names_ok_def)
  have "length (intern_all tbl xs) \<le> length (intern_all tbl (xs @ ys))"
    by (simp add: intern_all_append length_intern_all)
  with len have "length (intern_all tbl xs) < 2 ^ 64" by simp
  from completesD [OF f tbl this nx] obtain s1
    where s1: "f s = Inr s1" and t1: "table_for s1 (intern_all tbl xs)" by blast
  from len have "length (intern_all (intern_all tbl xs) ys) < 2 ^ 64"
    by (simp add: intern_all_append)
  from completesD [OF g t1 this ny] obtain s'
    where "g s1 = Inr s'" and "table_for s' (intern_all (intern_all tbl xs) ys)" by blast
  with s1 show "\<exists>s'. and_then (f s) g = Inr s' \<and> table_for s' (intern_all tbl (xs @ ys))"
    by (simp add: intern_all_append)
qed

lemma completes_append: "completes (\<lambda>s. to_trace s (Inr (traceBytes s @ bs))) []"
  by (rule completesI [OF _ emits_append]) simp

lemma completes_encodeByte: "completes (\<lambda>s. to_trace s (Inr (encodeByte (traceBytes s) b))) []"
  by (rule completesI [OF _ emits_encodeByte]) simp

lemma completes_encodeId: "completes (\<lambda>s. to_trace s (Inr (encodeId (traceBytes s) w))) []"
  by (rule completesI [OF _ emits_encodeId]) simp

lemma completes_encodeInteger:
  "in_range n \<Longrightarrow> completes (\<lambda>s. to_trace s (encodeInteger (traceBytes s) (Some n))) []"
  by (rule completesI [OF _ emits_encodeInteger]) (simp add: encodeInteger_def in_range_def)

lemma completes_encodeString: "completes (\<lambda>s. encodeString s v) [or_empty v]"
proof (rule completesI [OF _ emits_encodeString])
  fix s tbl
  assume tbl: "table_for s tbl" and len: "length (intern_all tbl [or_empty v]) < 2 ^ 64"
    and names: "names_ok [or_empty v]"
  let ?v = "or_empty v"
  from names have "?v \<in> set tbl \<or> ?v \<notin> set object_prototype_names"
    by (simp add: names_ok_def)
  with tbl have t1: "table_for (cacheString s ?v) (intern tbl ?v)"
    by (rule table_for_cacheString)
  have m: "stringMap (cacheString s ?v) ?v = Some (index_in (intern tbl ?v) ?v)"
    using table_for_lookup [OF t1, of ?v] by simp
  have "index_in (intern tbl ?v) ?v < length (intern tbl ?v)"
    by (rule index_in_less) simp
  with len have "int (index_in (intern tbl ?v) ?v) < 2 ^ 64"
    by simp
  moreover have "- (2 ^ 63) \<le> int (index_in (intern tbl ?v) ?v)"
    by (rule order_trans [of _ 0]) simp_all
  ultimately show "\<exists>s'. encodeString s v = Inr s'"
    by (simp add: encodeString_def Let_def m encodeInteger_def as_number_def get_property_def)
qed

lemma completes_encodeValue: "value_ok v \<Longrightarrow> completes (\<lambda>s. encodeValue s v) (value_strings v)"
proof (cases v)
  case (StringValue x)
  have "completes (\<lambda>s. encodeString s (Some x)) [or_empty (Some x)]"
    by (rule completes_encodeString)
  then show ?thesis
    by (rule completes_cong) (simp_all add: StringValue encodeValue_def value_strings_def or_empty_def)
next
  case (NumberValue w)
  show ?thesis
    by (rule completesI [OF _ emits_encodeValue]) (simp add: NumberValue encodeValue_def)
next
  case OtherValue
  assume "value_ok v"
  with OtherValue show ?thesis by (simp add: value_ok_def)
qed

lemma completes_encodeEntries:
  "entries_ok kvs \<Longrightarrow> completes (\<lambda>s. encodeEntries s kvs) (entries_strings kvs)"
proof (induction kvs)
  case Nil
  show ?case by (rule completesI [OF _ emits_encodeEntries]) simp
next
  case (Cons kv kvs)
  obtain k v where kv: "kv = (k, v)" by (cases kv)
  from Cons.prems have v: "value_ok v" and rest: "entries_ok kvs"
    by (simp_all add: kv entries_ok_def)
  have "completes (\<lambda>s. and_then (encodeString s (Some k)) (\<lambda>s. and_then (encodeValue s v) (\<lambda>s. encodeEntries s kvs)))
     ([or_empty (Some k)] @ (value_strings v @ entries_strings kvs))"
    by (intro completes_seq completes_encodeString completes_encodeValue Cons.IH v rest)
  then show ?case
    by (rule completes_cong) (simp_all add: kv entries_strings_def or_empty_def)
qed

lemma completes_encodeMap:
  assumes "entries_ok kvs"
  shows "completes (\<lambda>s. encodeMap s kvs) (entries_strings kvs)"
proof -
  have "completes (\<lambda>s. and_then (to_trace s (Inr (traceBytes s @ map_prefix (length kvs)))) (\<lambda>s. encodeEntries s kvs))
     ([] @ entries_strings kvs)"
    by (intro completes_seq completes_append completes_encodeEntries assms)
  then show ?thesis
    by (rule completes_cong) (simp_all add: encodeMap_def)
qed

lemma completes_encode_span:
  assumes "span_ok sp"
  shows "completes (\<lambda>s. encode_span s sp) (span_strings sp)"
proof -
  have zero: "in_range 0" by (simp add: in_range_def)
  have none: "entries_ok []" by (simp add: entries_ok_def)
  from assms obtain e where e: "error sp = Some e" and re: "in_range e"
    by (auto simp: span_ok_def split: option.splits)
  from assms zero have rs: "in_range (or_zero (start sp))" and rd: "in_range (or_zero (duration sp))"
    by (auto simp: span_ok_def or_zero_def split: option.splits)
  from assms none have m1: "entries_ok (or_no_entries (meta sp))"
    and m2: "entries_ok (or_no_entries (metrics sp))"
    by (auto simp: span_ok_def or_no_entries_def split: option.splits)
  have "completes (\<lambda>s. encode_span s sp)
     ([] @ [or_empty (service sp)] @ [or_empty (name sp)] @ [or_empty (resource sp)] @ [] @ [] @ []
        @ [] @ [] @ [] @ entries_strings (or_no_entries (meta sp))
        @ entries_strings (or_no_entries (metrics sp)) @ [or_empty (type sp)])"
    unfolding encode_span_def e
    by (intro completes_seq completes_encodeByte completes_encodeString completes_encodeId
        completes_encodeInteger completes_encodeMap re rs rd m1 m2)
  then show ?thesis
    by (rule completes_cong) (simp_all add: span_strings_def or_empty_def or_no_entries_def)
qed

lemma completes_encode_spans:
  "list_all span_ok sps \<Longrightarrow> completes (\<lambda>s. encode_spans s sps) (trace_strings sps)"
proof (induction sps)
  case Nil
  show ?case by (rule completesI [OF _ emits_encode_spans]) simp
next
  case (Cons sp sps)
  then have sp: "span_ok sp" and rest: "list_all span_ok sps" by simp_all
  have "completes (\<lambda>s. and_then (encode_span s sp) (\<lambda>s. encode_spans s sps))
     (span_strings sp @ trace_strings sps)"
    by (intro completes_seq completes_encode_span Cons.IH sp rest)
  then show ?case
    by (rule completes_cong) (simp_all add: trace_strings_def)
qed

lemma completes_encode:
  assumes "list_all span_ok t"
  shows "completes (\<lambda>s. encode s t) (trace_strings t)"
proof (rule completesI [OF _ emits_encode])
  fix s tbl
  assume tbl: "table_for s tbl" and len: "length (intern_all tbl (trace_strings t)) < 2 ^ 64"
    and names: "names_ok (trace_strings t)"
  let ?s = "s\<lparr>traceCount := traceCount s + 1, traceBytes := encodeArrayPrefix (traceBytes s) t\<rparr>"
  from tbl have "table_for ?s tbl" by simp
  from completesD [OF completes_encode_spans [OF assms] this len names]
  show "\<exists>s'. encode s t = Inr s'"
    by (auto simp: encode_def encode_trace_def)
qed

lemma completes_encode_batch:
  "batch_ok ts \<Longrightarrow> completes (\<lambda>s. encode_batch s ts) (batch_strings ts)"
proof (induction ts)
  case Nil
  show ?case by (rule completesI [OF _ emits_encode_batch]) simp
next
  case (Cons t ts)
  then have t: "list_all span_ok t" and rest: "batch_ok ts" by (simp_all add: batch_ok_def)
  have "completes (\<lambda>s. and_then (encode s t) (\<lambda>s. encode_batch s ts))
     (trace_strings t @ batch_strings ts)"
    by (intro completes_seq completes_encode Cons.IH t rest)
  then show ?case
    by (rule completes_cong) (simp_all add: batch_strings_def)
qed

lemma length_intern_all_le: "length (intern_all tbl vs) \<le> length tbl + length vs"
proof (induction vs arbitrary: tbl)
  case Nil
  then show ?case by simp
next
  case (Cons v vs)
  have "length (intern_all (intern tbl v) vs) \<le> length (intern tbl v) + length vs"
    by (rule Cons.IH)
  also have "\<dots> \<le> length tbl + length (v # vs)"
    by (simp add: intern_def)
  finally show ?case by simp
qed

lemma encode_batch_completes:
  assumes "batch_ok ts" and "table_for s tbl" and "length tbl + length (batch_strings ts) < 2 ^ 64"
    and "names_ok (batch_strings ts)"
  shows "\<exists>s'. encode_batch s ts = Inr s'"
proof -
  have "length (intern_all tbl (batch_strings ts)) \<le> length tbl + length (batch_strings ts)"
    by (rule length_intern_all_le)
  with assms(3) have "length (intern_all tbl (batch_strings ts)) < 2 ^ 64" by simp
  from completesD [OF completes_encode_batch [OF assms(1)] assms(2) this assms(4)] show ?thesis by blast
qed

subsection \<open>Running the encoder on a sample\<close>

lemmas sample_defs = sp_a_def sp_b_def sp_c_def sp_d_def batch_ok_def span_ok_def entries_ok_def value_ok_def
  names_ok_def object_prototype_names_def
  in_range_def or_zero_def or_no_entries_def or_empty_def batch_strings_def trace_strings_def
  span_strings_def entries_strings_def value_strings_def


lemma encode_batch_example: "\<exists>s'. encode_batch fresh [[sp_a]] = Inr s'"
  by (rule encode_batch_completes [OF _ table_for_fresh]) (simp_all add: sample_defs)

lemma encode_batch_example2: "\<exists>s'. encode_batch fresh [[sp_a, sp_b], [sp_b]] = Inr s'"
  by (rule encode_batch_completes [OF _ table_for_fresh]) (simp_all add: sample_defs)

section \<open>The payload\<close>

text \<open>
  C1, as the code has it. The buffer that \<open>makePayload\<close> returns has the length that
  the method computes before it allocates: one byte for the outer header and, for each
  of the two tables, five bytes for its header plus the length of its region. The five
  bytes are a constant of \<open>makePayload\<close>; they do not depend on the number of strings
  or of traces. The method writes the buffer up to its end and not beyond: the offset
  it reaches is the length, and no byte keeps what the memory held.
\<close>

theorem makePayload_size:
  "length (fst (makePayload mem s)) = 1 + (5 + length (stringBytes s)) + (5 + length (traceBytes s))
   \<and> snd (snd (makePayload mem s)) = length (fst (makePayload mem s))
   \<and> fst (makePayload mem s) = fst (makePayload mem' s)"
  by (simp add: makePayload_eq)

text \<open>
  C1, as the specification states it, fails: with headers sized by the element count an
  empty batch would take 3 bytes, and the buffer of the code has 11.
\<close>

theorem makePayload_size_counterexample:
  "length (fst (makePayload zero_mem fresh)) \<noteq> spec_payload_size fresh"
  by (simp add: length_makePayload) (simp add: fresh_def spec_payload_size_def header_size_def)

text \<open>
  C8. For every batch, the empty one included, the buffer starts with the byte \<open>0x92\<close>,
  the MessagePack header of an array of two; then comes the string table (its header,
  which holds the number of strings, and the string region), then the trace table (its
  header, which holds the number of traces, and the trace region). Nothing follows.
\<close>

theorem makePayload_layout:
  "fst (makePayload mem s) =
     [0x92] @ (table_header (stringCount s) @ stringBytes s)
            @ (table_header (traceCount s) @ traceBytes s)
   \<and> table_header n = 0xdd # big_endian 4 (int n)
   \<and> array_prefix 2 = [0x92]
   \<and> fst (makePayload mem fresh) = [0x92, 0xdd, 0, 0, 0, 0, 0xdd, 0, 0, 0, 0]"
proof -
  have a: "fst (makePayload mem s) =
     [0x92] @ (table_header (stringCount s) @ stringBytes s)
            @ (table_header (traceCount s) @ traceBytes s)"
    by (simp add: makePayload_eq ARRAY_OF_TWO_def)
  have b: "array_prefix 2 = [0x92]"
    by (simp add: array_prefix_def)
  have c: "table_header n = 0xdd # big_endian 4 (int n)"
    by (simp add: table_header_def)
  note d = makePayload_fresh [of mem]
  from a b c d show ?thesis by blast
qed

text \<open>
  C7. \<open>makePayload\<close> leaves the encoder in the state of a new one. Assembling with no
  trace encoded returns a buffer (of 11 bytes: the outer header and two empty tables),
  and so does a second \<open>makePayload\<close> right after a first. That payload is shorter
  than the payload of any batch of at least one trace.
\<close>

theorem makePayload_resets:
  "fst (snd (makePayload mem s)) = fresh
   \<and> fst (makePayload mem' (fst (snd (makePayload mem s)))) = [0x92, 0xdd, 0, 0, 0, 0, 0xdd, 0, 0, 0, 0]
   \<and> length (fst (makePayload mem' (fst (snd (makePayload mem s))))) = 11
   \<and> (\<forall>t ts s'. encode_batch fresh (t # ts) = Inr s' \<longrightarrow>
        length (fst (makePayload mem' (fst (snd (makePayload mem s))))) < length (fst (makePayload mem'' s')))"
proof -
  have a: "fst (snd (makePayload mem s)) = fresh"
    by (simp add: makePayload_eq reset_fresh)
  note b = makePayload_fresh [of mem']
  have c: "length (fst (makePayload mem' fresh)) = 11"
    by (simp add: length_makePayload) (simp add: fresh_def)
  have d: "length (fst (makePayload mem' fresh)) < length (fst (makePayload mem'' s'))"
    if "encode_batch fresh (t # ts) = Inr s'" for t ts s'
  proof -
    from encode_batch_traceBytes [OF that] have "traceBytes s' \<noteq> []" by simp
    then have "0 < length (traceBytes s')" by simp
    then show ?thesis unfolding c by (simp add: length_makePayload)
  qed
  from a b c d show ?thesis by simp
qed

text \<open>C7 on a batch of one trace with one span, after a flush.\<close>

theorem makePayload_resets_witness:
  "\<exists>s'. encode_batch fresh [[sp_a]] = Inr s' \<and>
     length (fst (makePayload zero_mem (fst (snd (makePayload zero_mem fresh))))) < length (fst (makePayload zero_mem s'))"
proof -
  from encode_batch_example obtain s' where s': "encode_batch fresh [[sp_a]] = Inr s'" ..
  with makePayload_resets [of zero_mem fresh zero_mem zero_mem] show ?thesis by blast
qed

lemma and_then_ContractViolation:
  assumes "\<And>e. m = Inl e \<Longrightarrow> e = ContractViolation"
    and "\<And>x. m = Inr x \<Longrightarrow> f x = Inl ContractViolation"
  shows "and_then m f = Inl ContractViolation"
  using assms by (cases m) auto

lemma encodeInteger_Inl: "encodeInteger bytes val = Inl e \<Longrightarrow> e = ContractViolation"
  by (auto simp: encodeInteger_def split: option.splits if_splits)

lemma encodeString_Inl: "encodeString s v = Inl e \<Longrightarrow> e = ContractViolation"
  by (auto simp: encodeString_def Let_def and_then_def split: sum.splits dest: encodeInteger_Inl)

lemma to_trace_Inl: "to_trace s (encodeInteger bytes val) = Inl e \<Longrightarrow> e = ContractViolation"
  by (auto simp: to_trace_def and_then_def split: sum.splits dest: encodeInteger_Inl)

lemma to_trace_undefined: "to_trace s (encodeInteger bytes None) = Inl ContractViolation"
  by (simp add: to_trace_def encodeInteger_def)

lemma encode_span_no_error:
  assumes "error sp = None"
  shows "encode_span s sp = Inl ContractViolation"
  unfolding encode_span_def
  apply (intro and_then_ContractViolation)
  apply (auto simp: assms to_trace_undefined dest: encodeString_Inl to_trace_Inl)
  done



section \<open>The empty string\<close>




lemma length_first_seen: "length (first_seen vs) = card (set vs)"
  by (simp add: first_seen_def length_remdups_card_conv)

lemma set_first_seen [simp]: "set (first_seen vs) = set vs"
  by (simp add: first_seen_def)

lemma table_for_nth:
  assumes "table_for s tbl" and "i < length tbl"
  shows "stringMap s (tbl ! i) = Some i"
proof -
  from assms have "distinct tbl" by (simp add: table_for_def)
  with assms show ?thesis by (simp add: table_for_lookup index_in_nth)
qed

lemma table_for_dom: "table_for s tbl \<Longrightarrow> dom (stringMap s) = set tbl"
  by (auto simp: table_for_lookup dom_def)

lemma encode_batch_table:
  assumes "table_for s0 tbl0" and "encode_batch s0 ts = Inr s"
  shows "table_for s (tbl0 @ filter (\<lambda>v. v \<notin> set tbl0) (first_seen (batch_strings ts)))"
  using emitsD(1) [OF emits_encode_batch assms] by (simp add: intern_all_first_seen_gen)


lemma span_bytes_fields:
  assumes "error sp = Some e"
  shows "span_bytes tbl sp =
     [0x9c] @ ref_bytes tbl (case service sp of None \<Rightarrow> [] | Some x \<Rightarrow> x)
       @ ref_bytes tbl (case name sp of None \<Rightarrow> [] | Some x \<Rightarrow> x)
       @ ref_bytes tbl (case resource sp of None \<Rightarrow> [] | Some x \<Rightarrow> x)
       @ id_bytes (trace_id sp) @ id_bytes (span_id sp) @ id_bytes (parent_id sp)
       @ integer_bytes (case start sp of None \<Rightarrow> 0 | Some n \<Rightarrow> n)
       @ integer_bytes (case duration sp of None \<Rightarrow> 0 | Some n \<Rightarrow> n)
       @ integer_bytes e
       @ map_bytes tbl (case meta sp of None \<Rightarrow> [] | Some kvs \<Rightarrow> kvs)
       @ map_bytes tbl (case metrics sp of None \<Rightarrow> [] | Some kvs \<Rightarrow> kvs)
       @ ref_bytes tbl (case type sp of None \<Rightarrow> [] | Some x \<Rightarrow> x)"
  by (simp add: span_bytes_def span_fields_def array_prefix_12 ARRAY_OF_TWELVE_def assms)


lemma encode_span_completes:
  assumes "span_ok sp" and "table_for s tbl" and "length tbl + length (span_strings sp) < 2 ^ 64"
    and "names_ok (span_strings sp)"
  shows "\<exists>s'. encode_span s sp = Inr s'"
proof -
  have "length (intern_all tbl (span_strings sp)) \<le> length tbl + length (span_strings sp)"
    by (rule length_intern_all_le)
  with assms(3) have "length (intern_all tbl (span_strings sp)) < 2 ^ 64" by simp
  from completesD [OF completes_encode_span [OF assms(1)] assms(2) this assms(4)] show ?thesis by blast
qed


section \<open>Defaults of the span fields\<close>

text \<open>
  C10. \<open>_encode\<close> writes \<open>span.start || 0\<close> and \<open>span.duration || 0\<close>: whenever a span
  is encoded, its seventh and eighth fields are the integers of start and duration, and
  the integer 0 where the field is missing. It writes \<open>span.error\<close> as it is: the ninth
  field is the integer of the flag, and a span without the flag makes the integer
  writer fail, so that nothing stands for it. A span without start and duration is
  among those that are encoded.
\<close>

theorem start_duration_default_error_passed:
  assumes "table_for s tbl"
  shows "let tbl' = intern_all tbl (span_strings sp) in
     (\<forall>s'. encode_span s sp = Inr s' \<longrightarrow>
        (\<exists>e. error sp = Some e \<and>
           traceBytes s' = traceBytes s @
             [0x9c] @ ref_bytes tbl' (case service sp of None \<Rightarrow> [] | Some x \<Rightarrow> x)
               @ ref_bytes tbl' (case name sp of None \<Rightarrow> [] | Some x \<Rightarrow> x)
               @ ref_bytes tbl' (case resource sp of None \<Rightarrow> [] | Some x \<Rightarrow> x)
               @ id_bytes (trace_id sp) @ id_bytes (span_id sp) @ id_bytes (parent_id sp)
               @ integer_bytes (case start sp of None \<Rightarrow> 0 | Some n \<Rightarrow> n)
               @ integer_bytes (case duration sp of None \<Rightarrow> 0 | Some n \<Rightarrow> n)
               @ integer_bytes e
               @ map_bytes tbl' (case meta sp of None \<Rightarrow> [] | Some kvs \<Rightarrow> kvs)
               @ map_bytes tbl' (case metrics sp of None \<Rightarrow> [] | Some kvs \<Rightarrow> kvs)
               @ ref_bytes tbl' (case type sp of None \<Rightarrow> [] | Some x \<Rightarrow> x)))
     \<and> (error sp = None \<longrightarrow> encode_span s sp = Inl ContractViolation)
     \<and> (span_ok sp \<and> names_ok (span_strings sp) \<and> length tbl + length (span_strings sp) < 2 ^ 64
          \<longrightarrow> (\<exists>s'. encode_span s sp = Inr s'))"
proof -
  define tbl' where "tbl' = intern_all tbl (span_strings sp)"
  have a: "\<exists>e. error sp = Some e \<and>
           traceBytes s' = traceBytes s @
             [0x9c] @ ref_bytes tbl' (case service sp of None \<Rightarrow> [] | Some x \<Rightarrow> x)
               @ ref_bytes tbl' (case name sp of None \<Rightarrow> [] | Some x \<Rightarrow> x)
               @ ref_bytes tbl' (case resource sp of None \<Rightarrow> [] | Some x \<Rightarrow> x)
               @ id_bytes (trace_id sp) @ id_bytes (span_id sp) @ id_bytes (parent_id sp)
               @ integer_bytes (case start sp of None \<Rightarrow> 0 | Some n \<Rightarrow> n)
               @ integer_bytes (case duration sp of None \<Rightarrow> 0 | Some n \<Rightarrow> n)
               @ integer_bytes e
               @ map_bytes tbl' (case meta sp of None \<Rightarrow> [] | Some kvs \<Rightarrow> kvs)
               @ map_bytes tbl' (case metrics sp of None \<Rightarrow> [] | Some kvs \<Rightarrow> kvs)
               @ ref_bytes tbl' (case type sp of None \<Rightarrow> [] | Some x \<Rightarrow> x)"
    if run: "encode_span s sp = Inr s'" for s'
  proof -
    from encode_span_no_error [of sp s] run obtain e where e: "error sp = Some e"
      by (cases "error sp") auto
    have "traceBytes s' = traceBytes s @ span_bytes tbl' sp"
      unfolding tbl'_def using emitsD(2) [OF emits_encode_span assms run, of "[]"] by simp
    then show ?thesis
      unfolding span_bytes_fields [OF e] using e by (intro exI [of _ e] conjI)
  qed
  have b: "error sp = None \<longrightarrow> encode_span s sp = Inl ContractViolation"
    using encode_span_no_error by blast
  have c: "span_ok sp \<and> names_ok (span_strings sp) \<and> length tbl + length (span_strings sp) < 2 ^ 64
          \<longrightarrow> (\<exists>s'. encode_span s sp = Inr s')"
    using encode_span_completes [OF _ assms] by blast
  show ?thesis
    unfolding Let_def tbl'_def [symmetric]
  proof (intro conjI allI impI)
    fix s' assume "encode_span s sp = Inr s'"
    then show "\<exists>e. error sp = Some e \<and>
           traceBytes s' = traceBytes s @
             [0x9c] @ ref_bytes tbl' (case service sp of None \<Rightarrow> [] | Some x \<Rightarrow> x)
               @ ref_bytes tbl' (case name sp of None \<Rightarrow> [] | Some x \<Rightarrow> x)
               @ ref_bytes tbl' (case resource sp of None \<Rightarrow> [] | Some x \<Rightarrow> x)
               @ id_bytes (trace_id sp) @ id_bytes (span_id sp) @ id_bytes (parent_id sp)
               @ integer_bytes (case start sp of None \<Rightarrow> 0 | Some n \<Rightarrow> n)
               @ integer_bytes (case duration sp of None \<Rightarrow> 0 | Some n \<Rightarrow> n)
               @ integer_bytes e
               @ map_bytes tbl' (case meta sp of None \<Rightarrow> [] | Some kvs \<Rightarrow> kvs)
               @ map_bytes tbl' (case metrics sp of None \<Rightarrow> [] | Some kvs \<Rightarrow> kvs)
               @ ref_bytes tbl' (case type sp of None \<Rightarrow> [] | Some x \<Rightarrow> x)"
      by (rule a)
  next
    assume "error sp = None"
    then show "encode_span s sp = Inl ContractViolation" by (rule encode_span_no_error)
  next
    assume "span_ok sp \<and> names_ok (span_strings sp) \<and> length tbl + length (span_strings sp) < 2 ^ 64"
    then show "\<exists>s'. encode_span s sp = Inr s'"
      using encode_span_completes [OF _ assms] by blast
  qed
qed

text \<open>
  C10 on a span without start and duration: both are written as 0, the flag as 1; the
  same span without the flag is refused.
\<close>

theorem start_duration_default_error_passed_witness:
  "\<exists>s'. table_for fresh [] \<and> encode_span fresh sp_d = Inr s'
     \<and> start sp_d = None \<and> duration sp_d = None \<and> error sp_d = Some 1
     \<and> traceBytes s' =
          [0x9c] @ ref_bytes [''db'', ''query'', []] ''db'' @ ref_bytes [''db'', ''query'', []] ''query''
            @ ref_bytes [''db'', ''query'', []] []
            @ id_bytes 3 @ id_bytes 4 @ id_bytes 0
            @ integer_bytes 0 @ integer_bytes 0 @ integer_bytes 1
            @ map_bytes [''db'', ''query'', []] [] @ map_bytes [''db'', ''query'', []] []
            @ ref_bytes [''db'', ''query'', []] []
     \<and> encode_span fresh (sp_d\<lparr>error := None\<rparr>) = Inl ContractViolation"
proof -
  note main = start_duration_default_error_passed [OF table_for_fresh, of sp_d, unfolded Let_def]
  have t: "intern_all [] (span_strings sp_d) = [''db'', ''query'', []]"
    by (simp add: sample_defs intern_def)
  have ok: "span_ok sp_d \<and> names_ok (span_strings sp_d) \<and> length ([] :: string list) + length (span_strings sp_d) < 2 ^ 64"
    by (simp add: sample_defs)
  from main [THEN conjunct2, THEN conjunct2, rule_format, OF ok]
  obtain s' where s': "encode_span fresh sp_d = Inr s'" ..
  from main [THEN conjunct1, rule_format, OF s']
  obtain e where e: "error sp_d = Some e" and bytes: "traceBytes s' = traceBytes fresh @
             [0x9c] @ ref_bytes (intern_all [] (span_strings sp_d)) (case service sp_d of None \<Rightarrow> [] | Some x \<Rightarrow> x)
               @ ref_bytes (intern_all [] (span_strings sp_d)) (case name sp_d of None \<Rightarrow> [] | Some x \<Rightarrow> x)
               @ ref_bytes (intern_all [] (span_strings sp_d)) (case resource sp_d of None \<Rightarrow> [] | Some x \<Rightarrow> x)
               @ id_bytes (trace_id sp_d) @ id_bytes (span_id sp_d) @ id_bytes (parent_id sp_d)
               @ integer_bytes (case start sp_d of None \<Rightarrow> 0 | Some n \<Rightarrow> n)
               @ integer_bytes (case duration sp_d of None \<Rightarrow> 0 | Some n \<Rightarrow> n)
               @ integer_bytes e
               @ map_bytes (intern_all [] (span_strings sp_d)) (case meta sp_d of None \<Rightarrow> [] | Some kvs \<Rightarrow> kvs)
               @ map_bytes (intern_all [] (span_strings sp_d)) (case metrics sp_d of None \<Rightarrow> [] | Some kvs \<Rightarrow> kvs)
               @ ref_bytes (intern_all [] (span_strings sp_d)) (case type sp_d of None \<Rightarrow> [] | Some x \<Rightarrow> x)"
    by blast
  from e have e1: "e = 1" by (simp add: sp_d_def)
  have bytes': "traceBytes s' =
          [0x9c] @ ref_bytes [''db'', ''query'', []] ''db'' @ ref_bytes [''db'', ''query'', []] ''query''
            @ ref_bytes [''db'', ''query'', []] []
            @ id_bytes 3 @ id_bytes 4 @ id_bytes 0
            @ integer_bytes 0 @ integer_bytes 0 @ integer_bytes 1
            @ map_bytes [''db'', ''query'', []] [] @ map_bytes [''db'', ''query'', []] []
            @ ref_bytes [''db'', ''query'', []] []"
    using bytes unfolding t e1 by (simp add: sp_d_def fresh_def)
  have none: "encode_span fresh (sp_d\<lparr>error := None\<rparr>) = Inl ContractViolation"
    by (rule encode_span_no_error) simp
  have f: "start sp_d = None \<and> duration sp_d = None \<and> error sp_d = Some 1"
    by (simp add: sp_d_def)
  from s' bytes' none f table_for_fresh show ?thesis
    by (intro exI [of _ s'] conjI) simp_all
qed


section \<open>The trace region\<close>



lemma take_length_append: "take (length xs) (xs @ ys) = xs"
  by simp

lemma encodeString_inherited:
  assumes "stringMap s v = None" and "v \<in> set object_prototype_names"
  shows "encodeString s (Some v) = Inl ContractViolation"
  using assms
  by (simp add: encodeString_def Let_def or_empty_def cacheString_inherited get_property_def
      as_number_def encodeInteger_def)

lemma inherited_names: "''constructor'' \<in> set object_prototype_names"
  "''toString'' \<in> set object_prototype_names"
  by (simp_all add: object_prototype_names_def)

section \<open>The string dictionary\<close>

text \<open>
  C9. The dictionary and the string region that a batch leaves depend on nothing but
  the table the encoder held and the sequence of the strings of the batch: two runs
  with the same strings agree on them, whatever else the two encoders and the two
  batches differ in, and so does the string table of their payloads, whatever the memory
  of the payload buffers held. For a new encoder they are given by the strings in the
  order of their first occurrence, and the whole payload does not depend on the memory.
  A batch of accepted spans is encoded.
\<close>

theorem dictionary_deterministic:
  "(\<forall>s1 s2. table_for sa tbl \<longrightarrow> table_for sb tbl \<longrightarrow> batch_strings ts1 = batch_strings ts2 \<longrightarrow>
       encode_batch sa ts1 = Inr s1 \<longrightarrow> encode_batch sb ts2 = Inr s2 \<longrightarrow>
         stringMap s1 = stringMap s2 \<and> stringCount s1 = stringCount s2 \<and> stringBytes s1 = stringBytes s2
         \<and> take (6 + length (stringBytes s1)) (fst (makePayload mem1 s1))
             = take (6 + length (stringBytes s2)) (fst (makePayload mem2 s2)))
   \<and> (\<forall>s1. encode_batch fresh ts = Inr s1 \<longrightarrow>
         fst (makePayload mem1 s1) = fst (makePayload mem2 s1)
         \<and> stringCount s1 = length (first_seen (batch_strings ts))
         \<and> stringMap s1 = map_of (zip (first_seen (batch_strings ts)) [0..<length (first_seen (batch_strings ts))])
         \<and> stringBytes s1 = concat (map string_bytes (first_seen (batch_strings ts))))
   \<and> (batch_ok ts \<and> names_ok (batch_strings ts) \<and> length (batch_strings ts) < 2 ^ 64
         \<longrightarrow> (\<exists>s1. encode_batch fresh ts = Inr s1))"
proof -
  have p: "take (6 + length (stringBytes s)) (fst (makePayload mem s))
    = ARRAY_OF_TWO # table_header (stringCount s) @ stringBytes s" for mem s
  proof -
    have "fst (makePayload mem s) = (ARRAY_OF_TWO # table_header (stringCount s) @ stringBytes s)
      @ (table_header (traceCount s) @ traceBytes s)"
      by (simp add: makePayload_eq)
    moreover have "6 + length (stringBytes s) = length (ARRAY_OF_TWO # table_header (stringCount s) @ stringBytes s)"
      by simp
    ultimately show ?thesis by (simp only: take_length_append)
  qed
  have a: "stringMap s1 = stringMap s2 \<and> stringCount s1 = stringCount s2 \<and> stringBytes s1 = stringBytes s2
         \<and> take (6 + length (stringBytes s1)) (fst (makePayload mem1 s1))
             = take (6 + length (stringBytes s2)) (fst (makePayload mem2 s2))"
    if ta: "table_for sa tbl" and tb: "table_for sb tbl" and eq: "batch_strings ts1 = batch_strings ts2"
      and r1: "encode_batch sa ts1 = Inr s1" and r2: "encode_batch sb ts2 = Inr s2" for s1 s2
  proof -
    have "table_for s1 (intern_all tbl (batch_strings ts1))"
      using emitsD(1) [OF emits_encode_batch ta r1] .
    moreover have "table_for s2 (intern_all tbl (batch_strings ts1))"
      unfolding eq using emitsD(1) [OF emits_encode_batch tb r2] .
    ultimately have "stringMap s1 = stringMap s2 \<and> stringCount s1 = stringCount s2 \<and> stringBytes s1 = stringBytes s2"
      by (simp add: table_for_def)
    then show ?thesis unfolding p by simp
  qed
  have b: "fst (makePayload mem1 s1) = fst (makePayload mem2 s1)
         \<and> stringCount s1 = length (first_seen (batch_strings ts))
         \<and> stringMap s1 = map_of (zip (first_seen (batch_strings ts)) [0..<length (first_seen (batch_strings ts))])
         \<and> stringBytes s1 = concat (map string_bytes (first_seen (batch_strings ts)))"
    if "encode_batch fresh ts = Inr s1" for s1
    using encode_batch_table [OF table_for_fresh that] by (simp add: table_for_def makePayload_eq)
  have c: "\<exists>s1. encode_batch fresh ts = Inr s1"
    if "batch_ok ts \<and> names_ok (batch_strings ts) \<and> length (batch_strings ts) < 2 ^ 64"
    using encode_batch_completes [OF _ table_for_fresh, of ts] that by simp
  from a b c show ?thesis by blast
qed

text \<open>
  C9 on two batches of a new encoder that hold the same spans, cut into traces
  differently, and two different memories.
\<close>

theorem dictionary_deterministic_witness:
  "\<exists>s1 s2. table_for fresh [] \<and> batch_strings [[sp_a, sp_b]] = batch_strings [[sp_a], [sp_b]]
     \<and> encode_batch fresh [[sp_a, sp_b]] = Inr s1 \<and> encode_batch fresh [[sp_a], [sp_b]] = Inr s2
     \<and> stringMap s1 = stringMap s2 \<and> stringCount s1 = stringCount s2 \<and> stringBytes s1 = stringBytes s2
     \<and> fst (makePayload zero_mem s1) = fst (makePayload ones_mem s1)
     \<and> stringCount s1 = 6"
proof -
  have eq: "batch_strings [[sp_a, sp_b]] = batch_strings [[sp_a], [sp_b]]"
    by (simp add: batch_strings_def trace_strings_def)
  have ok1: "batch_ok [[sp_a, sp_b]] \<and> names_ok (batch_strings [[sp_a, sp_b]])
    \<and> length (batch_strings [[sp_a, sp_b]]) < 2 ^ 64"
    by (simp add: sample_defs)
  have ok2: "batch_ok [[sp_a], [sp_b]] \<and> names_ok (batch_strings [[sp_a], [sp_b]])
    \<and> length (batch_strings [[sp_a], [sp_b]]) < 2 ^ 64"
    by (simp add: sample_defs)
  have fs: "first_seen (batch_strings [[sp_a, sp_b]]) = [''web'', ''GET /a'', [], ''env'', ''k'', ''GET /b'']"
    by (simp add: first_seen_def sample_defs)
  note m1 = dictionary_deterministic [of fresh "[]" fresh "[[sp_a, sp_b]]" "[[sp_a], [sp_b]]" zero_mem ones_mem "[[sp_a, sp_b]]"]
  note m2 = dictionary_deterministic [of fresh "[]" fresh "[[sp_a, sp_b]]" "[[sp_a], [sp_b]]" zero_mem ones_mem "[[sp_a], [sp_b]]"]
  from m1 [THEN conjunct2, THEN conjunct2, rule_format, OF ok1]
  obtain s1 where s1: "encode_batch fresh [[sp_a, sp_b]] = Inr s1" ..
  from m2 [THEN conjunct2, THEN conjunct2, rule_format, OF ok2]
  obtain s2 where s2: "encode_batch fresh [[sp_a], [sp_b]] = Inr s2" ..
  from m1 [THEN conjunct1, rule_format, OF table_for_fresh table_for_fresh eq s1 s2]
  have same: "stringMap s1 = stringMap s2 \<and> stringCount s1 = stringCount s2 \<and> stringBytes s1 = stringBytes s2"
    by blast
  from m1 [THEN conjunct2, THEN conjunct1, rule_format, OF s1]
  have pay: "fst (makePayload zero_mem s1) = fst (makePayload ones_mem s1)"
    and n: "stringCount s1 = length (first_seen (batch_strings [[sp_a, sp_b]]))"
    by blast+
  from n have six: "stringCount s1 = 6" unfolding fs by simp
  from eq s1 s2 same pay six table_for_fresh show ?thesis
    by (intro exI [of _ s1] exI [of _ s2] conjI) simp_all
qed

section \<open>Strings that are names of inherited properties\<close>

text \<open>
  C3 fails on the code for a string that is the name of an inherited property. On a
  new encoder \<open>'constructor' in this._stringMap\<close> is true, so \<open>_cacheString\<close> gives
  the string no index: the dictionary stays empty, the counter stays 0, nothing is
  appended to the string region. The span with that service name is not encoded.
\<close>

theorem cacheString_inherited_name_not_interned:
  "stringMap fresh ''constructor'' = None
   \<and> cacheString fresh ''constructor'' = fresh
   \<and> stringMap (cacheString fresh ''constructor'') ''constructor'' = None
   \<and> stringCount (cacheString fresh ''constructor'') = 0
   \<and> stringBytes (cacheString fresh ''constructor'') = []
   \<and> encode_batch fresh [[sp_c]] = Inl ContractViolation"
proof -
  have a: "cacheString fresh ''constructor'' = fresh"
    by (rule cacheString_inherited) (rule inherited_names)
  have b: "encodeString (fresh\<lparr>traceCount := n, traceBytes := bs\<rparr>) (Some ''constructor'') = Inl ContractViolation" for n bs
    by (rule encodeString_inherited) (simp_all add: fresh_def inherited_names)
  have c: "encode_batch fresh [[sp_c]] = Inl ContractViolation"
    by (simp add: encode_def encode_trace_def encode_span_def sp_c_def b)
  from a c show ?thesis by (simp add: fresh_def)
qed


text \<open>
  C5 fails on the code for the same strings. A service name \<open>'toString'\<close> that two
  traces share gets no entry in the table, however often it is interned, where it
  should get one; the trace that holds it is not encoded.
\<close>

theorem shared_inherited_name_no_entry:
  "''toString'' \<in> set (trace_strings [sp_c\<lparr>service := Some ''toString''\<rparr>])
   \<and> encode fresh [sp_c\<lparr>service := Some ''toString''\<rparr>] = Inl ContractViolation
   \<and> cacheString (cacheString fresh ''toString'') ''toString'' = fresh
   \<and> stringCount (cacheString (cacheString fresh ''toString'') ''toString'') = 0
   \<and> stringMap (cacheString (cacheString fresh ''toString'') ''toString'') ''toString'' = None"
proof -
  have a: "cacheString s ''toString'' = s" for s
    by (rule cacheString_inherited) (rule inherited_names)
  have b: "encodeString (fresh\<lparr>traceCount := n, traceBytes := bs\<rparr>) (Some ''toString'') = Inl ContractViolation" for n bs
    by (rule encodeString_inherited) (simp_all add: fresh_def inherited_names)
  have c: "encode fresh [sp_c\<lparr>service := Some ''toString''\<rparr>] = Inl ContractViolation"
    by (simp add: encode_def encode_trace_def encode_span_def sp_c_def b)
  have d: "''toString'' \<in> set (trace_strings [sp_c\<lparr>service := Some ''toString''\<rparr>])"
    by (simp add: trace_strings_def span_strings_def sp_c_def)
  from a c d show ?thesis by (simp add: fresh_def)
qed

end
